theory Spec2Isabelle
  imports Complex_Main "HOL-Library.Word" "HOL-Library.Log_Nat" "HOL-Library.Sublist"
begin

unbundle bit_operations_syntax

section \<open>Strings of the host language\<close>

text \<open>
  A string of the source language is a sequence of UTF-16 code units; \<open>charCodeAt\<close>
  returns the code unit at an index and \<open>length\<close> counts code units. A literal of the
  source is written \<open>js ''...''\<close>.
\<close>

type_synonym jschar = "16 word"
type_synonym jsstring = "jschar list"

definition js :: "string \<Rightarrow> jsstring" where
  "js s = map (\<lambda>c. of_nat (of_char c)) s"

text \<open>
  The code units that the language's \<open>WhiteSpace\<close> and \<open>LineTerminator\<close> productions
  accept. The same set is what \<open>\s\<close> matches in a regular expression, what
  \<open>parseInt\<close> skips at the start of its argument and what \<open>BigInt\<close> trims from both
  ends of a string.
\<close>

definition isWhiteSpace :: "jschar \<Rightarrow> bool" where
  "isWhiteSpace c \<longleftrightarrow>
     c = 0x0009 \<or> c = 0x000A \<or> c = 0x000B \<or> c = 0x000C \<or> c = 0x000D \<or> c = 0x0020 \<or>
     c = 0x00A0 \<or> c = 0x1680 \<or> (0x2000 \<le> c \<and> c \<le> 0x200A) \<or> c = 0x2028 \<or>
     c = 0x2029 \<or> c = 0x202F \<or> c = 0x205F \<or> c = 0x3000 \<or> c = 0xFEFF"

text \<open>\<open>\w\<close> of a regular expression: \<open>[A-Za-z0-9_]\<close>.\<close>

definition isWordChar :: "jschar \<Rightarrow> bool" where
  "isWordChar c \<longleftrightarrow>
     (0x41 \<le> c \<and> c \<le> 0x5A) \<or> (0x61 \<le> c \<and> c \<le> 0x7A) \<or>
     (0x30 \<le> c \<and> c \<le> 0x39) \<or> c = 0x5F"

text \<open>A digit of radix 16, in either case, and its value.\<close>

definition isHexDigit :: "jschar \<Rightarrow> bool" where
  "isHexDigit c \<longleftrightarrow>
     (0x30 \<le> c \<and> c \<le> 0x39) \<or> (0x61 \<le> c \<and> c \<le> 0x66) \<or> (0x41 \<le> c \<and> c \<le> 0x46)"

definition hexDigitValue :: "jschar \<Rightarrow> int" where
  "hexDigitValue c =
     (if 0x30 \<le> c \<and> c \<le> 0x39 then uint c - 0x30
      else if 0x61 \<le> c \<and> c \<le> 0x66 then uint c - 0x61 + 10
      else uint c - 0x41 + 10)"

text \<open>The mathematical value of a run of radix-16 digits, most significant first.\<close>

definition hexValue :: "jsstring \<Rightarrow> int" where
  "hexValue s = foldl (\<lambda>acc c. 16 * acc + hexDigitValue c) 0 s"

text \<open>
  A fingerprint is well formed when it is exactly 16 hexadecimal characters
  (the schema of the repository: \<open>/^[a-fA-F0-9]{16}$/\<close>).
\<close>

definition wellFormedFingerprint :: "jsstring \<Rightarrow> bool" where
  "wellFormedFingerprint s \<longleftrightarrow> length s = 16 \<and> list_all isHexDigit s"

section \<open>Errors\<close>

text \<open>
  \<open>Error msg\<close> is the \<open>new Error(msg)\<close> that the validated comparator throws;
  \<open>SyntaxError\<close> is what \<open>BigInt\<close> throws on a string that is not an integer literal;
  \<open>TypeError\<close> is what reading \<open>length\<close> throws on a reference that holds no array.
\<close>

datatype js_error = Error string | SyntaxError | TypeError

section \<open>The built-in conversions the comparators use\<close>

text \<open>
  \<open>parseInt(s, 16)\<close>: skip leading white space, read an optional sign, strip an optional
  \<open>0x\<close> or \<open>0X\<close>, then read the longest prefix of hexadecimal digits. \<open>None\<close> is
  \<open>NaN\<close> (no digit was read). The sign of a zero result is not kept: every use below
  passes the result through \<open>ToInt32\<close>, which maps both zeros to 0.
\<close>

definition parseInt16 :: "jsstring \<Rightarrow> int option" where
  "parseInt16 inputString =
     (let s = dropWhile isWhiteSpace inputString;
          sign = (if s \<noteq> [] \<and> hd s = 0x2D then -1 else 1);
          s1 = (if s \<noteq> [] \<and> (hd s = 0x2B \<or> hd s = 0x2D) then tl s else s);
          s2 = (if length s1 \<ge> 2 \<and> (take 2 s1 = [0x30, 0x78] \<or> take 2 s1 = [0x30, 0x58])
                then drop 2 s1 else s1);
          z = takeWhile isHexDigit s2
      in if z = [] then None else Some (sign * hexValue z))"

text \<open>\<open>ToInt32\<close> on the result of \<open>parseInt\<close>: \<open>NaN\<close> becomes 0.\<close>

definition toInt32 :: "int option \<Rightarrow> int" where
  "toInt32 v = (case v of None \<Rightarrow> 0 | Some n \<Rightarrow> signed_take_bit 31 n)"

text \<open>
  \<open>BigInt('0x' + a)\<close>: the string is trimmed of white space at both ends (only the end
  matters after the prefix) and must then be \<open>0x\<close> followed by at least one hexadecimal
  digit; anything else throws.
\<close>

definition bigIntOfHex :: "jsstring \<Rightarrow> js_error + int" where
  "bigIntOfHex a =
     (let z = rev (dropWhile isWhiteSpace (rev a))
      in if z \<noteq> [] \<and> list_all isHexDigit z then Inr (hexValue z) else Inl SyntaxError)"

section \<open>Fingerprint comparator\<close>

text \<open>
  Both comparators count bits with the same loop,
  \<^verbatim>\<open>while (xor > 0) { count += xor & 1; xor >>= 1; }\<close>,
  once on a 32-bit number and once on a big integer (\<open>x\<close> stands for the source's
  variable \<open>xor\<close>). \<open>>>\<close> on either is the
  arithmetic shift, \<open>drop_bit 1\<close> on \<open>int\<close>.
\<close>

function countBitsLoop :: "int \<Rightarrow> int \<Rightarrow> int" where
  "countBitsLoop x count =
     (if x > 0 then countBitsLoop (drop_bit 1 x) (count + (x AND 1)) else count)"
  by pat_completeness auto
termination
  by (relation "measure (\<lambda>(x, count). nat x)") (auto simp: drop_bit_eq_div)

declare countBitsLoop.simps [simp del]

text \<open>\<open>hammingDistance\<close> of simhash.ts, the fast path.\<close>

definition hammingDistance :: "jsstring \<Rightarrow> jsstring \<Rightarrow> js_error + int" where
  "hammingDistance a b =
     (case bigIntOfHex a of
        Inl e \<Rightarrow> Inl e
      | Inr valA \<Rightarrow>
          (case bigIntOfHex b of
             Inl e \<Rightarrow> Inl e
           | Inr valB \<Rightarrow> Inr (countBitsLoop (valA XOR valB) 0)))"

text \<open>
  \<open>calculateHammingDistance\<close> of similarity.ts, the validated path. The guard looks at
  the two lengths only. The body of the \<open>for\<close> loop at offset \<open>i\<close> is \<open>chunkStep\<close>.
\<close>

definition substring :: "jsstring \<Rightarrow> nat \<Rightarrow> nat \<Rightarrow> jsstring" where
  "substring s i j = take (j - i) (drop i s)"

definition chunkStep :: "jsstring \<Rightarrow> jsstring \<Rightarrow> int \<Rightarrow> nat \<Rightarrow> int" where
  "chunkStep hashA hashB distance i =
     (let valA = parseInt16 (substring hashA i (i + 4));
          valB = parseInt16 (substring hashB i (i + 4));
          x = toInt32 valA XOR toInt32 valB
      in countBitsLoop x distance)"

definition calculateHammingDistance :: "jsstring \<Rightarrow> jsstring \<Rightarrow> js_error + int" where
  "calculateHammingDistance hashA hashB =
     (if length hashA \<noteq> 16 \<or> length hashB \<noteq> 16
      then Inl (Error ''Hashes must be 16-character hex strings'')
      else Inr (foldl (chunkStep hashA hashB) 0 [0, 4, 8, 12]))"

text \<open>\<open>getMatchType\<close> of simhash.ts, on an integer distance.\<close>

datatype MatchType = Exact | Near | Similar | Different

definition getMatchType :: "int \<Rightarrow> MatchType" where
  "getMatchType distance =
     (if distance = 0 then Exact
      else if distance \<le> 3 then Near
      else if distance \<le> 10 then Similar
      else Different)"

section \<open>Hash primitive\<close>

text \<open>
  \<open>fnv1a64\<close> of simhash.ts. The running hash is a big integer; the loop reads the
  string one code unit at a time with \<open>charCodeAt\<close>.
\<close>

definition FNV_OFFSET_BASIS :: int where
  "FNV_OFFSET_BASIS = 14695981039346656037"

definition FNV_PRIME :: int where
  "FNV_PRIME = 1099511628211"

definition MASK_64 :: int where
  "MASK_64 = push_bit 64 1 - 1"

definition fnv1a64 :: "jsstring \<Rightarrow> int" where
  "fnv1a64 str =
     foldl (\<lambda>hash c. ((hash XOR uint c) * FNV_PRIME) AND MASK_64) FNV_OFFSET_BASIS str"

section \<open>Fingerprint generator\<close>

text \<open>
  \<open>tokenize\<close> of simhash.ts:
  \<^verbatim>\<open>text.toLowerCase().replace(/[^\w\s]/g, ' ').split(/\s+/).filter(word => word.length >= minLength)\<close>.
  \<open>toLowerCase\<close> is the host's Unicode case mapping; its table is not part of the
  repository, so the mapping is a parameter of the model. \<open>asciiLowerCase\<close>, which maps
  \<open>A\<close>..\<open>Z\<close> only, is what that mapping does on ASCII text.
\<close>

definition asciiLowerCase :: "jsstring \<Rightarrow> jsstring" where
  "asciiLowerCase s = map (\<lambda>c. if 0x41 \<le> c \<and> c \<le> 0x5A then c + 0x20 else c) s"

definition replaceNonWord :: "jsstring \<Rightarrow> jsstring" where
  "replaceNonWord s = map (\<lambda>c. if \<not> isWordChar c \<and> \<not> isWhiteSpace c then 0x20 else c) s"

text \<open>
  \<open>split(/\s+/)\<close>: the pieces between maximal runs of white space; a run at the start or
  at the end of the string leaves an empty piece there, and the empty string splits into
  one empty piece.
\<close>

function splitWhiteSpace :: "jsstring \<Rightarrow> jsstring \<Rightarrow> jsstring list" where
  "splitWhiteSpace [] piece = [piece]"
| "splitWhiteSpace (c # cs) piece =
     (if isWhiteSpace c then piece # splitWhiteSpace (dropWhile isWhiteSpace cs) []
      else splitWhiteSpace cs (piece @ [c]))"
  by pat_completeness auto
termination
  by (relation "measure (\<lambda>(s, piece). length s)")
     (auto simp: less_Suc_eq_le length_dropWhile_le)

definition tokenize :: "(jsstring \<Rightarrow> jsstring) \<Rightarrow> jsstring \<Rightarrow> nat \<Rightarrow> jsstring list" where
  "tokenize toLowerCase text minLength =
     filter (\<lambda>word. length word \<ge> minLength)
       (splitWhiteSpace (replaceNonWord (toLowerCase text)) [])"

text \<open>
  \<open>toString(16)\<close> of a big integer and \<open>padStart(n, c)\<close> with a one-character pad.
\<close>

definition hexDigitChar :: "int \<Rightarrow> jschar" where
  "hexDigitChar d = (if d < 10 then 0x30 + word_of_int d else 0x61 + word_of_int (d - 10))"

function toString16 :: "int \<Rightarrow> jsstring" where
  "toString16 n =
     (if n < 0 then 0x2D # toString16 (- n)
      else if n < 16 then [hexDigitChar n]
      else toString16 (n div 16) @ [hexDigitChar (n mod 16)])"
  by pat_completeness auto
termination
  by (relation "measure (\<lambda>n. if n < 0 then nat (- n) + 1 else nat n)") auto

declare toString16.simps [simp del]

definition padStart :: "jsstring \<Rightarrow> nat \<Rightarrow> jschar \<Rightarrow> jsstring" where
  "padStart s n c = (if length s \<ge> n then s else replicate (n - length s) c @ s)"

text \<open>
  \<open>computeSimHash\<close> of simhash.ts. \<open>voteToken\<close> is the body of the loop over the
  tokens (its inner loop runs over the 64 bit positions of the token's hash);
  \<open>collapse\<close> is the loop that builds the fingerprint from the vector.
\<close>

definition voteToken :: "int list \<Rightarrow> jsstring \<Rightarrow> int list" where
  "voteToken vector token =
     (let hash = fnv1a64 token
      in foldl (\<lambda>v i. let b = drop_bit i hash AND 1
                       in v[i := v ! i + (if b = 1 then 1 else - 1)]) vector [0..<64])"

definition collapse :: "int list \<Rightarrow> int" where
  "collapse vector =
     foldl (\<lambda>fingerprint i. if vector ! i > 0 then fingerprint OR push_bit i 1 else fingerprint)
       0 [0..<64]"

definition computeSimHash :: "(jsstring \<Rightarrow> jsstring) \<Rightarrow> jsstring \<Rightarrow> jsstring" where
  "computeSimHash toLowerCase text =
     (let tokens = tokenize toLowerCase text 2
      in if length tokens = 0 then js ''0000000000000000''
         else let vector = foldl voteToken (replicate 64 0) tokens;
                  fingerprint = collapse vector
              in padStart (toString16 fingerprint) 16 0x30)"

section \<open>Cluster builder\<close>

text \<open>
  \<open>ArticleInput\<close> of types.ts (\<open>artId\<close> is its field \<open>id\<close>). \<open>publishedAt\<close> holds
  the time value in milliseconds that \<open>new Date(publishedAt).getTime()\<close> yields, and
  \<open>None\<close> where that is \<open>NaN\<close>: the type \<open>string | Date\<close> admits a string that does
  not parse as a date. \<open>ArticleGroup\<close> of grouper.ts (\<open>groupId\<close> is its field
  \<open>id\<close>); \<open>averageDistance\<close> holds a double, as the rational number it denotes.
\<close>

record ArticleInput =
  artId :: jsstring
  content :: "jsstring option"
  headline :: jsstring
  simHash :: jsstring
  publishedAt :: "int option"
  sourceDomain :: jsstring

record ArticleGroup =
  groupId :: jsstring
  centerArticleId :: jsstring
  memberIds :: "jsstring list"
  averageDistance :: rat

text \<open>
  The division \<open>a / b\<close> of two numbers that hold integers. The language's numbers are
  IEEE 754 doubles: the quotient is the exact one rounded to 53 significant bits, to the
  nearest such value and to the one with an even significand on a tie.
  \<open>binaryExponent a b\<close> is the exponent of the leading bit of the exact quotient of
  two positive integers, the \<open>e\<close> with \<open>2^e \<le> a / b < 2^(e+1)\<close>. The builder divides a
  sum of distances, each at most 64, by their number, which is at least 1 and (an array
  length) below \<open>2^32\<close>: the quotient is 0 or lies between \<open>2^-32\<close> and 64, far inside
  the range of normal doubles, so neither overflow nor gradual underflow is modelled, and
  a zero divisor does not occur.
\<close>

definition roundHalfEven :: "rat \<Rightarrow> int" where
  "roundHalfEven x =
     (let f = \<lfloor>x\<rfloor>; r = x - of_int f
      in if r < 1 / 2 then f else if 1 / 2 < r then f + 1 else if even f then f else f + 1)"

definition binaryExponent :: "int \<Rightarrow> int \<Rightarrow> int" where
  "binaryExponent a b =
     (let e0 = bitlen a - bitlen b
      in if b * 2 ^ nat (bitlen a) \<le> a * 2 ^ nat (bitlen b) then e0 else e0 - 1)"

definition numberDivide :: "int \<Rightarrow> int \<Rightarrow> rat" where
  "numberDivide a b =
     (if a = 0 then 0
      else let q = of_int \<bar>a\<bar> / of_int \<bar>b\<bar>;
               e = binaryExponent \<bar>a\<bar> \<bar>b\<bar>
           in of_int (sgn a * sgn b * roundHalfEven (q * 2 powi (52 - e))) * 2 powi (e - 52))"

text \<open>The decimal digits of an array length, as a template literal prints it.\<close>

function decimalString :: "nat \<Rightarrow> jsstring" where
  "decimalString n =
     (if n < 10 then [0x30 + of_nat n]
      else decimalString (n div 10) @ [0x30 + of_nat (n mod 10)])"
  by pat_completeness auto
termination
  by (relation "measure (\<lambda>n. n)") auto

declare decimalString.simps [simp del]

text \<open>
  The comparator of the sort, \<open>getTime(b) - getTime(a)\<close>, as the sort sees it: a
  \<open>NaN\<close> result counts as 0. The difference of two time values is taken exactly; the
  sort looks at its sign only, which the double subtraction keeps.
\<close>

definition compareNewestFirst :: "ArticleInput \<Rightarrow> ArticleInput \<Rightarrow> int" where
  "compareNewestFirst a b =
     (case (publishedAt b, publishedAt a) of
        (Some tb, Some ta) \<Rightarrow> tb - ta
      | _ \<Rightarrow> 0)"

text \<open>
  \<open>Array.prototype.sort\<close> belongs to the host. Where every date parses the comparator
  is consistent, and the language then fixes the result: the elements in the order of
  the comparator, equal ones in their original order; that is the stable sort by the
  negated time value. Where a date does not parse the comparator is not consistent
  (\<open>NaN\<close> compares equal to everything) and the language leaves the order to the
  implementation. For that case the model follows the V8 engine, on which the repository
  runs: an array of fewer than 64 elements is sorted as a single run, that is, the
  longest initial run is taken as it stands (reversed, if it strictly descends) and each
  further element is placed into it by binary insertion. \<open>timSortShort\<close> is that
  procedure; longer arrays, which the engine sorts by merging several such runs, are
  given the same order here.
\<close>

function binarySearch :: "('a \<Rightarrow> 'a \<Rightarrow> int) \<Rightarrow> 'a \<Rightarrow> 'a list \<Rightarrow> nat \<Rightarrow> nat \<Rightarrow> nat" where
  "binarySearch cmp pivot work left right =
     (if left < right
      then let mid = left + (right - left) div 2
           in if cmp pivot (work ! mid) < 0
              then binarySearch cmp pivot work left mid
              else binarySearch cmp pivot work (mid + 1) right
      else left)"
  by pat_completeness auto
termination
  by (relation "measure (\<lambda>(cmp, pivot, work, left, right). right - left)") auto

declare binarySearch.simps [simp del]

definition binaryInsert :: "('a \<Rightarrow> 'a \<Rightarrow> int) \<Rightarrow> 'a list \<Rightarrow> 'a \<Rightarrow> 'a list" where
  "binaryInsert cmp work pivot =
     (let left = binarySearch cmp pivot work 0 (length work)
      in take left work @ [pivot] @ drop left work)"

fun runLength :: "('a \<Rightarrow> 'a \<Rightarrow> int) \<Rightarrow> bool \<Rightarrow> 'a \<Rightarrow> 'a list \<Rightarrow> nat" where
  "runLength cmp isDescending previous [] = 0"
| "runLength cmp isDescending previous (current # rest) =
     (let order = cmp current previous
      in if (isDescending \<and> order \<ge> 0) \<or> (\<not> isDescending \<and> order < 0) then 0
         else Suc (runLength cmp isDescending current rest))"

definition timSortShort :: "('a \<Rightarrow> 'a \<Rightarrow> int) \<Rightarrow> 'a list \<Rightarrow> 'a list" where
  "timSortShort cmp xs =
     (case xs of
        x0 # x1 # rest \<Rightarrow>
          let isDescending = cmp x1 x0 < 0;
              n = 2 + runLength cmp isDescending x1 rest;
              run = (if isDescending then rev (take n xs) else take n xs)
          in foldl (binaryInsert cmp) run (drop n xs)
      | _ \<Rightarrow> xs)"

definition timeKey :: "ArticleInput \<Rightarrow> int" where
  "timeKey a = (case publishedAt a of Some t \<Rightarrow> - t | None \<Rightarrow> 0)"

definition sortNewestFirst :: "ArticleInput list \<Rightarrow> ArticleInput list" where
  "sortNewestFirst articles =
     (if list_all (\<lambda>a. publishedAt a \<noteq> None) articles
      then sort_key timeKey articles
      else timSortShort compareNewestFirst articles)"

text \<open>
  The inner loop over the candidates. Its state is \<open>group.memberIds\<close>, the set
  \<open>assigned\<close> and \<open>totalDistance\<close>; a throw of the comparator leaves the loop.
\<close>

fun scanCandidates ::
  "ArticleInput \<Rightarrow> int \<Rightarrow> ArticleInput list \<Rightarrow> jsstring list \<times> jsstring set \<times> int
     \<Rightarrow> js_error + (jsstring list \<times> jsstring set \<times> int)" where
  "scanCandidates article threshold [] st = Inr st"
| "scanCandidates article threshold (candidate # rest) (members, assigned, totalDistance) =
     (if artId candidate = artId article \<or> artId candidate \<in> assigned
      then scanCandidates article threshold rest (members, assigned, totalDistance)
      else (case calculateHammingDistance (simHash article) (simHash candidate) of
              Inl e \<Rightarrow> Inl e
            | Inr distance \<Rightarrow>
                if distance \<le> threshold
                then scanCandidates article threshold rest
                       (members @ [artId candidate], insert (artId candidate) assigned,
                        totalDistance + distance)
                else scanCandidates article threshold rest (members, assigned, totalDistance)))"

text \<open>
  The group object as it stands when it is pushed: its \<open>id\<close> from the number of groups
  so far, its members as the inner loop left them, and the average, which stays 0 unless
  the center has company.
\<close>

definition makeGroup ::
  "ArticleGroup list \<Rightarrow> ArticleInput \<Rightarrow> jsstring list \<Rightarrow> int \<Rightarrow> ArticleGroup" where
  "makeGroup groups article members totalDistance =
     \<lparr> groupId = js ''cluster-'' @ decimalString (length groups + 1),
       centerArticleId = artId article,
       memberIds = members,
       averageDistance =
         (if length members > 1
          then numberDivide totalDistance (int (length members) - 1)
          else 0) \<rparr>"

text \<open>
  The outer loop over the sorted list; \<open>sortedArr\<close> (the source's
  \<open>sorted\<close>) is the whole list, which every inner loop scans from its start, and the third argument is what the outer loop has still to
  visit. Its state is the array \<open>groups\<close> and the set \<open>assigned\<close>.
\<close>

fun groupLoop ::
  "int \<Rightarrow> ArticleInput list \<Rightarrow> ArticleInput list \<Rightarrow> ArticleGroup list \<times> jsstring set
     \<Rightarrow> js_error + ArticleGroup list" where
  "groupLoop threshold sortedArr [] (groups, assigned) = Inr groups"
| "groupLoop threshold sortedArr (article # rest) (groups, assigned) =
     (if artId article \<in> assigned then groupLoop threshold sortedArr rest (groups, assigned)
      else (case scanCandidates article threshold sortedArr ([artId article], assigned, 0) of
              Inl e \<Rightarrow> Inl e
            | Inr (members, assigned', totalDistance) \<Rightarrow>
                groupLoop threshold sortedArr rest
                  (groups @ [makeGroup groups article members totalDistance],
                   insert (artId article) assigned')))"

definition groupArticlesBySimilarity ::
  "ArticleInput list \<Rightarrow> int \<Rightarrow> js_error + ArticleGroup list" where
  "groupArticlesBySimilarity articles threshold =
     (if length articles = 0 then Inr []
      else let sortedArr = sortNewestFirst articles
           in groupLoop threshold sortedArr sortedArr ([], {}))"


section \<open>The cluster builder on a store\<close>

text \<open>
  The arrays of the source are objects that the caller and the builder share by
  reference. A store is the list of the objects allocated so far and a reference is an
  index into it; \<open>alloc\<close> appends. The article objects themselves are only read (the
  source assigns to no field of an article), so an array holds them as values. The builder
  allocates \<open>groups\<close>, then the copy \<open>[...articles]\<close>, sorts the copy in place and
  pushes the finished groups onto \<open>groups\<close>; the early \<open>return []\<close> allocates its own
  empty array. The set \<open>assigned\<close> and the groups' member arrays are reachable only from
  the call and are kept as values.
\<close>

datatype obj = ArticleArray "ArticleInput list" | GroupArray "ArticleGroup list"

type_synonym store = "obj list"

definition alloc :: "store \<Rightarrow> obj \<Rightarrow> store \<times> nat" where
  "alloc h v = (h @ [v], length h)"

definition readArticles :: "store \<Rightarrow> nat \<Rightarrow> ArticleInput list option" where
  "readArticles h r =
     (if r < length h
      then (case h ! r of ArticleArray xs \<Rightarrow> Some xs | GroupArray gs \<Rightarrow> None)
      else None)"

definition sortInPlace :: "store \<Rightarrow> nat \<Rightarrow> store" where
  "sortInPlace h r =
     (case readArticles h r of
        None \<Rightarrow> h
      | Some xs \<Rightarrow> h[r := ArticleArray (sortNewestFirst xs)])"

definition groupArticlesBySimilarity_store ::
  "store \<Rightarrow> nat \<Rightarrow> int \<Rightarrow> store \<times> (js_error + nat)" where
  "groupArticlesBySimilarity_store h articlesRef threshold =
     (case readArticles h articlesRef of
        None \<Rightarrow> (h, Inl TypeError)
      | Some articles \<Rightarrow>
          if length articles = 0
          then (let (h1, emptyRef) = alloc h (GroupArray []) in (h1, Inr emptyRef))
          else
            let (h1, groupsRef) = alloc h (GroupArray []);
                (h2, sortedRef) = alloc h1 (ArticleArray articles);
                h3 = sortInPlace h2 sortedRef
            in (case readArticles h3 sortedRef of
                  None \<Rightarrow> (h3, Inl TypeError)
                | Some sortedArr \<Rightarrow>
                    (case groupLoop threshold sortedArr sortedArr ([], {}) of
                       Inl e \<Rightarrow> (h3, Inl e)
                     | Inr groups \<Rightarrow> (h3[groupsRef := GroupArray groups], Inr groupsRef))))"

section \<open>Notions the statements use\<close>

text \<open>
  The Hamming distance of two 64-bit values, as the specification words it: the number
  of bit positions, out of 64, at which the two values differ.
\<close>

definition differingBits :: "int \<Rightarrow> int \<Rightarrow> int" where
  "differingBits x y = int (length (filter (\<lambda>i. bit x i \<noteq> bit y i) [0..<64]))"

text \<open>A lowercase hexadecimal digit.\<close>

definition isLowerHexDigit :: "jschar \<Rightarrow> bool" where
  "isLowerHexDigit c \<longleftrightarrow> (0x30 \<le> c \<and> c \<le> 0x39) \<or> (0x61 \<le> c \<and> c \<le> 0x66)"

text \<open>
  The vote of one token at one bit position, and the sum of the votes of a token
  sequence at that position.
\<close>

definition vote :: "nat \<Rightarrow> jsstring \<Rightarrow> int" where
  "vote i token = (if bit (fnv1a64 token) i then 1 else - 1)"

definition voteSum :: "nat \<Rightarrow> jsstring list \<Rightarrow> int" where
  "voteSum i tokens = sum_list (map (vote i) tokens)"

text \<open>
  The arithmetic mean of a list of distances, 0 for the empty list: \<open>meanDistance\<close> is
  the exact mean, \<open>numberMean\<close> the mean as the language's arithmetic computes it, the
  sum divided by the number of distances in doubles.
\<close>

definition meanDistance :: "int list \<Rightarrow> rat" where
  "meanDistance ds = (if ds = [] then 0 else of_int (sum_list ds) / of_nat (length ds))"

definition numberMean :: "int list \<Rightarrow> rat" where
  "numberMean ds = (if ds = [] then 0 else numberDivide (sum_list ds) (int (length ds)))"

text \<open>
  The characters of a string and their code points, as the language's string iterator
  and \<open>codePointAt\<close> give them: a high surrogate followed by a low surrogate is one
  character, with the code point the pair encodes; any other code unit is a character by
  itself, with its own value as code point. \<open>fnv1a64_byCodePoint\<close> is the hash as the
  specification words it, one step for each character's code point.
\<close>

definition isHighSurrogate :: "jschar \<Rightarrow> bool" where
  "isHighSurrogate c \<longleftrightarrow> 0xD800 \<le> c \<and> c \<le> 0xDBFF"

definition isLowSurrogate :: "jschar \<Rightarrow> bool" where
  "isLowSurrogate c \<longleftrightarrow> 0xDC00 \<le> c \<and> c \<le> 0xDFFF"

fun codePoints :: "jsstring \<Rightarrow> int list" where
  "codePoints [] = []"
| "codePoints [c] = [uint c]"
| "codePoints (hi # lo # rest) =
     (if isHighSurrogate hi \<and> isLowSurrogate lo
      then (0x10000 + (uint hi - 0xD800) * 0x400 + (uint lo - 0xDC00)) # codePoints rest
      else uint hi # codePoints (lo # rest))"

definition fnv1a64_byCodePoint :: "jsstring \<Rightarrow> int" where
  "fnv1a64_byCodePoint str =
     foldl (\<lambda>hash cp. ((hash XOR cp) * FNV_PRIME) mod 2 ^ 64) FNV_OFFSET_BASIS (codePoints str)"

text \<open>The ids of all members of all clusters, in the order the clusters list them.\<close>

definition allMemberIds :: "ArticleGroup list \<Rightarrow> jsstring list" where
  "allMemberIds groups = concat (map memberIds groups)"

text \<open>
  What one run of the inner loop achieves, from the state \<open>st\<close> to the state
  \<open>st'\<close>: it appends the ids of the candidates \<open>ms\<close> it accepted, in scan order,
  marks them assigned and adds their distances \<open>ds\<close> to the total; the accepted ids
  are distinct, were unassigned before and differ from the center's id, and the accepted
  candidates come in the order of the scanned list.
\<close>

definition scanResultOK ::
  "ArticleInput \<Rightarrow> ArticleInput list \<Rightarrow> jsstring list \<times> jsstring set \<times> int
     \<Rightarrow> jsstring list \<times> jsstring set \<times> int \<Rightarrow> ArticleInput list \<Rightarrow> int list \<Rightarrow> bool" where
  "scanResultOK article cands st st' ms ds \<longleftrightarrow>
     fst st' = fst st @ map artId ms \<and>
     fst (snd st') = fst (snd st) \<union> artId ` set ms \<and>
     snd (snd st') = snd (snd st) + sum_list ds \<and>
     distinct (map artId ms) \<and>
     artId ` set ms \<inter> fst (snd st) = {} \<and>
     artId article \<notin> artId ` set ms \<and>
     set ms \<subseteq> set cands \<and> subseq ms cands \<and>
     map (\<lambda>m. calculateHammingDistance (simHash article) (simHash m)) ms = map Inr ds"

text \<open>
  A cluster \<open>g\<close> over the batch \<open>S\<close>: its center \<open>c\<close> and its further members
  \<open>ms\<close> are documents of the batch, its member list is the center's id followed by
  the members' ids, and its average distance is the mean, as doubles compute it, of the
  distances \<open>ds\<close> that the comparator returns for the center and each further member.
\<close>

definition groupOK :: "ArticleInput list \<Rightarrow> ArticleGroup \<Rightarrow> bool" where
  "groupOK S g \<longleftrightarrow>
     (\<exists>c ms ds. c \<in> set S \<and> set ms \<subseteq> set S \<and> centerArticleId g = artId c \<and>
        memberIds g = artId c # map artId ms \<and>
        map (\<lambda>m. calculateHammingDistance (simHash c) (simHash m)) ms = map Inr ds \<and>
        averageDistance g = numberMean ds)"

text \<open>
  What the outer loop adds while it visits \<open>rest\<close>, the part of the sorted list \<open>S\<close>
  it has not visited yet: the new clusters \<open>new\<close> have their centers in the order of
  \<open>rest\<close>, each lists its center first and its members in the order of \<open>S\<close>, and if
  the next document to visit is unassigned it is the center of the first new cluster.
\<close>

definition visitOK ::
  "ArticleInput list \<Rightarrow> ArticleInput list \<Rightarrow> jsstring set \<Rightarrow> ArticleGroup list \<Rightarrow> bool" where
  "visitOK S rest assigned new \<longleftrightarrow>
     subseq (map centerArticleId new) (map artId rest) \<and>
     list_all (\<lambda>g. subseq (memberIds g) (map artId S) \<and>
                    (\<exists>ids. memberIds g = centerArticleId g # ids)) new \<and>
     (rest \<noteq> [] \<and> artId (hd rest) \<notin> assigned \<longrightarrow>
        new \<noteq> [] \<and> centerArticleId (hd new) = artId (hd rest))"

text \<open>Examples: the batch of the specification's scenario.\<close>

definition mkArticle :: "string \<Rightarrow> string \<Rightarrow> int \<Rightarrow> ArticleInput" where
  "mkArticle i fp t =
     \<lparr> artId = js i, content = None, headline = js ''Article'', simHash = js fp,
       publishedAt = Some t, sourceDomain = js ''example.com'' \<rparr>"

definition scenarioBatch :: "ArticleInput list" where
  "scenarioBatch =
     [mkArticle ''a1'' ''ffffffffffffffff'' 3000,
      mkArticle ''a2'' ''efffffffffffffff'' 2000,
      mkArticle ''a3'' ''0000000000000000'' 1000]"

text \<open>A center with three near-duplicates at the distances 1, 1 and 2.\<close>

definition thirdsBatch :: "ArticleInput list" where
  "thirdsBatch =
     [mkArticle ''c'' ''0000000000000000'' 4000,
      mkArticle ''m1'' ''0000000000000001'' 3000,
      mkArticle ''m2'' ''0000000000000002'' 2000,
      mkArticle ''m3'' ''0000000000000003'' 1000]"

text \<open>
  Two near-duplicates \<open>a\<close> and \<open>b\<close> with the same publication time, \<open>a\<close> first, among
  documents that are far from them and from each other: in \<open>tieBatch\<close> every date
  parses, in \<open>brokenDateBatch\<close> the date of \<open>n\<close> does not.
\<close>

definition tieBatch :: "ArticleInput list" where
  "tieBatch =
     [mkArticle ''y'' ''000000000000ffff'' 3000,
      mkArticle ''a'' ''0000000000000000'' 5000,
      mkArticle ''p'' ''ffff000000000000'' 9000,
      mkArticle ''b'' ''0000000000000001'' 5000]"

definition brokenDateBatch :: "ArticleInput list" where
  "brokenDateBatch =
     [mkArticle ''p'' ''ffff000000000000'' 9000,
      mkArticle ''q'' ''0000ffff00000000'' 8000,
      mkArticle ''r'' ''00000000ffff0000'' 7000,
      mkArticle ''y'' ''000000000000ffff'' 3000,
      (mkArticle ''n'' ''ffffffff00000000'' 0) \<lparr> publishedAt := None \<rparr>,
      mkArticle ''a'' ''0000000000000000'' 5000,
      mkArticle ''w'' ''00000000ffffffff'' 4000,
      mkArticle ''b'' ''0000000000000001'' 5000]"

section \<open>Counting bits\<close>


lemma countBitsLoop_nonpos: "x \<le> 0 \<Longrightarrow> countBitsLoop x c = c"
  by (simp add: countBitsLoop.simps)

lemma countBitsLoop_pos:
  "0 < x \<Longrightarrow> countBitsLoop x c = countBitsLoop (x div 2) (c + x mod 2)"
  by (subst countBitsLoop.simps) (simp add: drop_bit_eq_div and_one_eq)

lemma countBitsLoop_acc: "countBitsLoop x c = c + countBitsLoop x 0"
proof (induction "nat x" arbitrary: x c rule: less_induct)
  case less
  show ?case
  proof (cases "0 < x")
    case True
    then have "nat (x div 2) < nat x" by auto
    from less[OF this, of "c + x mod 2"] less[OF this, of "0 + x mod 2"] True
    show ?thesis by (simp add: countBitsLoop_pos)
  next
    case False
    then show ?thesis by (simp add: countBitsLoop_nonpos)
  qed
qed

lemma countBitsLoop_step:
  "0 \<le> x \<Longrightarrow> countBitsLoop x 0 = x mod 2 + countBitsLoop (x div 2) 0"
proof (cases "x = 0")
  case True then show ?thesis by (simp add: countBitsLoop_nonpos)
next
  case False
  assume "0 \<le> x"
  with False have "0 < x" by simp
  then show ?thesis
    using countBitsLoop_acc[of "x div 2" "x mod 2"] by (simp add: countBitsLoop_pos)
qed

lemma countBitsLoop_split:
  "0 \<le> x \<Longrightarrow> countBitsLoop x 0 = countBitsLoop (take_bit k x) 0 + countBitsLoop (drop_bit k x) 0"
proof (induction k arbitrary: x)
  case 0
  then show ?case by (simp add: countBitsLoop_nonpos)
next
  case (Suc k)
  have a: "0 \<le> x div 2" using Suc.prems by simp
  have b: "0 \<le> take_bit (Suc k) x" by simp
  have "countBitsLoop (take_bit (Suc k) x) 0
      = take_bit (Suc k) x mod 2 + countBitsLoop (take_bit (Suc k) x div 2) 0"
    by (rule countBitsLoop_step[OF b])
  also have "take_bit (Suc k) x mod 2 = x mod 2"
    by (simp add: take_bit_Suc)
  also have "take_bit (Suc k) x div 2 = take_bit k (x div 2)"
    by (simp add: take_bit_Suc)
  finally have c: "countBitsLoop (take_bit (Suc k) x) 0 = x mod 2 + countBitsLoop (take_bit k (x div 2)) 0" .
  have d: "drop_bit (Suc k) x = drop_bit k (x div 2)"
    by (simp add: drop_bit_Suc)
  show ?case
    using countBitsLoop_step[OF Suc.prems] Suc.IH[OF a] c d by simp
qed

lemma countBitsLoop_bounds:
  "0 \<le> x \<Longrightarrow> x < 2 ^ n \<Longrightarrow> 0 \<le> countBitsLoop x 0 \<and> countBitsLoop x 0 \<le> int n"
proof (induction n arbitrary: x)
  case 0
  then have "x = 0" by simp
  then show ?case by (simp add: countBitsLoop_nonpos)
next
  case (Suc n)
  have a: "0 \<le> x div 2" using Suc.prems by simp
  have b: "x div 2 < 2 ^ n" using Suc.prems by simp
  have "0 \<le> x mod 2 \<and> x mod 2 \<le> 1" by presburger
  then show ?case
    using countBitsLoop_step[OF Suc.prems(1)] Suc.IH[OF a b] by simp
qed

lemma countBitsLoop_filter:
  "0 \<le> x \<Longrightarrow> x < 2 ^ n \<Longrightarrow> countBitsLoop x 0 = int (length (filter (bit x) [0..<n]))"
proof (induction n arbitrary: x)
  case 0
  then have "x = 0" by simp
  then show ?case by (simp add: countBitsLoop_nonpos)
next
  case (Suc n)
  have a: "0 \<le> x div 2" using Suc.prems by simp
  have b: "x div 2 < 2 ^ n" using Suc.prems by simp
  have "[0..<Suc n] = 0 # map Suc [0..<n]"
    by (simp add: upt_conv_Cons map_Suc_upt del: upt_Suc)
  then have "filter (bit x) [0..<Suc n] = (if bit x 0 then [0] else []) @ map Suc (filter (bit (x div 2)) [0..<n])"
    by (simp add: filter_map comp_def bit_Suc del: upt_Suc)
  then have "int (length (filter (bit x) [0..<Suc n])) = x mod 2 + int (length (filter (bit (x div 2)) [0..<n]))"
    by (simp add: bit_0 odd_iff_mod_2_eq_one del: upt_Suc)
  then show ?case
    using countBitsLoop_step[OF Suc.prems(1)] Suc.IH[OF a b] by simp
qed

section \<open>Hexadecimal values\<close>

lemma hexDigitValue_range: "isHexDigit c \<Longrightarrow> 0 \<le> hexDigitValue c \<and> hexDigitValue c < 16"
  unfolding isHexDigit_def hexDigitValue_def word_le_def
  by auto

lemma isHexDigit_not_special:
  "isHexDigit c \<Longrightarrow> \<not> isWhiteSpace c \<and> c \<noteq> 0x2D \<and> c \<noteq> 0x2B \<and> c \<noteq> 0x78 \<and> c \<noteq> 0x58"
  unfolding isHexDigit_def isWhiteSpace_def word_le_def
  by auto

lemma hexValue_foldl:
  "foldl (\<lambda>acc c. 16 * acc + hexDigitValue c) a t = a * 16 ^ length t + hexValue t"
proof (induction t arbitrary: a)
  case Nil
  show ?case by (simp add: hexValue_def)
next
  case (Cons c t)
  have "hexValue (c # t) = foldl (\<lambda>acc c. 16 * acc + hexDigitValue c) (hexDigitValue c) t"
    by (simp add: hexValue_def)
  then show ?case
    using Cons.IH[of "16 * a + hexDigitValue c"] Cons.IH[of "hexDigitValue c"]
    by (simp add: algebra_simps)
qed

lemma hexValue_append: "hexValue (s @ t) = hexValue s * 16 ^ length t + hexValue t"
  using hexValue_foldl[of "hexValue s" t] by (simp add: hexValue_def)

lemma hexValue_range:
  "list_all isHexDigit s \<Longrightarrow> 0 \<le> hexValue s \<and> hexValue s < 16 ^ length s"
proof (induction s rule: rev_induct)
  case Nil
  show ?case by (simp add: hexValue_def)
next
  case (snoc c s)
  then have ih: "0 \<le> hexValue s" "hexValue s + 1 \<le> 16 ^ length s" by simp_all
  from snoc.prems have d: "0 \<le> hexDigitValue c" "hexDigitValue c < 16"
    using hexDigitValue_range[of c] by simp_all
  have "hexValue (s @ [c]) = hexValue s * 16 + hexDigitValue c"
    by (simp add: hexValue_append hexValue_def)
  moreover have "hexValue s * 16 + 16 \<le> 16 ^ length s * 16"
    using ih(2) by simp
  ultimately show ?case using ih(1) d by simp
qed

lemma hexValue_take_drop:
  assumes "list_all isHexDigit s"
  shows "take_bit (4 * (length s - n)) (hexValue s) = hexValue (drop n s)"
    and "drop_bit (4 * (length s - n)) (hexValue s) = hexValue (take n s)"
proof -
  let ?k = "length s - n"
  have len: "length (drop n s) = ?k" by simp
  have "list_all isHexDigit (drop n s)"
    using assms by (auto simp: list_all_iff dest: in_set_dropD)
  from hexValue_range[OF this] have r: "0 \<le> hexValue (drop n s)" "hexValue (drop n s) < 2 ^ (4 * ?k)"
    by (simp_all add: power_mult)
  have "hexValue s = hexValue (take n s @ drop n s)" by simp
  also have "\<dots> = hexValue (take n s) * 2 ^ (4 * ?k) + hexValue (drop n s)"
    by (simp only: hexValue_append len) (simp add: power_mult)
  finally have e: "hexValue s = hexValue (take n s) * 2 ^ (4 * ?k) + hexValue (drop n s)" .
  show "take_bit (4 * ?k) (hexValue s) = hexValue (drop n s)"
    using r by (simp add: e take_bit_eq_mod)
  show "drop_bit (4 * ?k) (hexValue s) = hexValue (take n s)"
    using r by (simp add: e drop_bit_eq_div)
qed

lemma countBitsLoop_hex_split:
  assumes "list_all isHexDigit s" "list_all isHexDigit t" "length s = length t"
  shows "countBitsLoop (hexValue s XOR hexValue t) 0 =
         countBitsLoop (hexValue (take n s) XOR hexValue (take n t)) 0 +
         countBitsLoop (hexValue (drop n s) XOR hexValue (drop n t)) 0"
proof -
  let ?k = "4 * (length s - n)"
  have nn: "0 \<le> hexValue s XOR hexValue t"
    using hexValue_range[OF assms(1)] hexValue_range[OF assms(2)] by simp
  have "take_bit ?k (hexValue s XOR hexValue t) = hexValue (drop n s) XOR hexValue (drop n t)"
    using hexValue_take_drop(1)[OF assms(1), of n] hexValue_take_drop(1)[OF assms(2), of n] assms(3)
    by (simp add: take_bit_xor)
  moreover have "drop_bit ?k (hexValue s XOR hexValue t) = hexValue (take n s) XOR hexValue (take n t)"
    using hexValue_take_drop(2)[OF assms(1), of n] hexValue_take_drop(2)[OF assms(2), of n] assms(3)
    by (simp add: drop_bit_xor)
  ultimately show ?thesis
    using countBitsLoop_split[OF nn, of ?k] by simp
qed

lemma parseInt16_hex:
  assumes "list_all isHexDigit z" "z \<noteq> []"
  shows "parseInt16 z = Some (hexValue z)"
proof -
  obtain c cs where z: "z = c # cs" using assms(2) by (cases z) auto
  with assms(1) have c: "isHexDigit c" by simp
  note n = isHexDigit_not_special[OF c]
  have dw: "dropWhile isWhiteSpace z = z" using n z by simp
  have pre: "take 2 z \<noteq> [0x30, 0x78] \<and> take 2 z \<noteq> [0x30, 0x58]"
  proof (cases cs)
    case Nil then show ?thesis using z by simp
  next
    case (Cons d ds)
    with assms(1) z have "isHexDigit d" by simp
    from isHexDigit_not_special[OF this] show ?thesis using z Cons by simp
  qed
  have tw: "takeWhile isHexDigit z = z"
    using assms(1) by (simp add: list_all_iff)
  have h: "hd z \<noteq> 0x2D" "hd z \<noteq> 0x2B" using n z by simp_all
  show ?thesis
    unfolding parseInt16_def Let_def dw
    using h pre assms(2) by (simp add: tw)
qed

lemma toInt32_small: "0 \<le> v \<Longrightarrow> v < 2 ^ 16 \<Longrightarrow> toInt32 (Some v) = v"
proof -
  assume a: "0 \<le> v" "v < 2 ^ 16"
  then have "v < 2 ^ 31" by simp
  with a(1) have "signed_take_bit 31 v = v"
    by (simp add: signed_take_bit_int_eq_self)
  then show ?thesis by (simp add: toInt32_def)
qed

section \<open>The two comparators on well-formed fingerprints\<close>

lemma list_all_take_drop:
  "list_all P s \<Longrightarrow> list_all P (take n s) \<and> list_all P (drop n s)"
  by (auto simp: list_all_iff dest: in_set_takeD in_set_dropD)

lemma chunkStep_hex:
  assumes "list_all isHexDigit a" "list_all isHexDigit b" "i < length a" "i < length b"
  shows "chunkStep a b d i =
         d + countBitsLoop (hexValue (take 4 (drop i a)) XOR hexValue (take 4 (drop i b))) 0"
proof -
  let ?ca = "take 4 (drop i a)" and ?cb = "take 4 (drop i b)"
  have ha: "list_all isHexDigit ?ca" and hb: "list_all isHexDigit ?cb"
    using assms(1,2) list_all_take_drop by blast+
  have na: "?ca \<noteq> []" and nb: "?cb \<noteq> []" using assms(3,4) by simp_all
  have ra: "0 \<le> hexValue ?ca" "hexValue ?ca < 2 ^ 16"
  proof -
    have "(16::int) ^ length ?ca \<le> 16 ^ 4" by (rule power_increasing) simp_all
    then show "0 \<le> hexValue ?ca" "hexValue ?ca < 2 ^ 16"
      using hexValue_range[OF ha] by simp_all
  qed
  have rb: "0 \<le> hexValue ?cb" "hexValue ?cb < 2 ^ 16"
  proof -
    have "(16::int) ^ length ?cb \<le> 16 ^ 4" by (rule power_increasing) simp_all
    then show "0 \<le> hexValue ?cb" "hexValue ?cb < 2 ^ 16"
      using hexValue_range[OF hb] by simp_all
  qed
  have "chunkStep a b d i = countBitsLoop (hexValue ?ca XOR hexValue ?cb) d"
    unfolding chunkStep_def Let_def substring_def
    by (simp add: parseInt16_hex[OF ha na] parseInt16_hex[OF hb nb]
        toInt32_small[OF ra] toInt32_small[OF rb])
  then show ?thesis
    using countBitsLoop_acc[of "hexValue ?ca XOR hexValue ?cb" d] by simp
qed

lemma calculateHammingDistance_hex:
  assumes "wellFormedFingerprint a" "wellFormedFingerprint b"
  shows "calculateHammingDistance a b = Inr (countBitsLoop (hexValue a XOR hexValue b) 0)"
proof -
  from assms have la: "length a = 16" and lb: "length b = 16"
    and ha: "list_all isHexDigit a" and hb: "list_all isHexDigit b"
    by (simp_all add: wellFormedFingerprint_def)
  let ?p = "\<lambda>s t. countBitsLoop (hexValue s XOR hexValue t) 0"
  have d4: "list_all isHexDigit (drop 4 a)" "list_all isHexDigit (drop 4 b)"
    and d8: "list_all isHexDigit (drop 8 a)" "list_all isHexDigit (drop 8 b)"
    using ha hb list_all_take_drop by blast+
  have s1: "?p a b = ?p (take 4 a) (take 4 b) + ?p (drop 4 a) (drop 4 b)"
    using countBitsLoop_hex_split[OF ha hb, of 4] la lb by simp
  have s2: "?p (drop 4 a) (drop 4 b) =
      ?p (take 4 (drop 4 a)) (take 4 (drop 4 b)) + ?p (drop 8 a) (drop 8 b)"
    using countBitsLoop_hex_split[OF d4, of 4] la lb by simp
  have s3: "?p (drop 8 a) (drop 8 b) =
      ?p (take 4 (drop 8 a)) (take 4 (drop 8 b)) + ?p (drop 12 a) (drop 12 b)"
    using countBitsLoop_hex_split[OF d8, of 4] la lb by simp
  have s4: "take 4 (drop 12 a) = drop 12 a" "take 4 (drop 12 b) = drop 12 b"
    using la lb by simp_all
  have "foldl (chunkStep a b) 0 [0, 4, 8, 12] = ?p a b"
    using la lb
    by (simp add: chunkStep_hex[OF ha hb] s1 s2 s3 s4)
  then show ?thesis using la lb by (simp add: calculateHammingDistance_def)
qed

lemma bigIntOfHex_hex:
  assumes "list_all isHexDigit a" "a \<noteq> []"
  shows "bigIntOfHex a = Inr (hexValue a)"
proof -
  from assms(2) have "rev a \<noteq> []" by simp
  then obtain c cs where r: "rev a = c # cs" by (cases "rev a") auto
  then have "c \<in> set a" by (metis list.set_intros(1) set_rev)
  with assms(1) have "isHexDigit c" by (simp add: list_all_iff)
  then have "\<not> isWhiteSpace c" using isHexDigit_not_special by blast
  then have "dropWhile isWhiteSpace (rev a) = rev a" using r by simp
  then show ?thesis using assms by (simp add: bigIntOfHex_def)
qed

lemma hammingDistance_hex:
  assumes "wellFormedFingerprint a" "wellFormedFingerprint b"
  shows "hammingDistance a b = Inr (countBitsLoop (hexValue a XOR hexValue b) 0)"
proof -
  from assms have "a \<noteq> []" "b \<noteq> []" "list_all isHexDigit a" "list_all isHexDigit b"
    by (auto simp: wellFormedFingerprint_def)
  then show ?thesis by (simp add: hammingDistance_def bigIntOfHex_hex)
qed

lemma hexValue_fingerprint_range:
  "wellFormedFingerprint a \<Longrightarrow> 0 \<le> hexValue a \<and> hexValue a < 2 ^ 64"
  using hexValue_range[of a] by (simp add: wellFormedFingerprint_def)

lemma hexValue_xor_range:
  assumes "wellFormedFingerprint a" "wellFormedFingerprint b"
  shows "0 \<le> hexValue a XOR hexValue b" and "hexValue a XOR hexValue b < 2 ^ 64"
proof -
  note ra = hexValue_fingerprint_range[OF assms(1)] and rb = hexValue_fingerprint_range[OF assms(2)]
  show "0 \<le> hexValue a XOR hexValue b" using ra rb by simp
  show "hexValue a XOR hexValue b < 2 ^ 64"
    using XOR_upper[of "hexValue a" 64 "hexValue b"] ra rb by simp
qed


lemma countBitsLoop_differingBits:
  assumes "0 \<le> x" "x < 2 ^ 64" "0 \<le> y" "y < 2 ^ 64"
  shows "countBitsLoop (x XOR y) 0 = differingBits x y"
proof -
  have nn: "0 \<le> x XOR y" using assms by simp
  have ub: "x XOR y < 2 ^ 64" using XOR_upper[of x 64 y] assms by simp
  have "filter (bit (x XOR y)) [0..<64] = filter (\<lambda>i. bit x i \<noteq> bit y i) [0..<64]"
    by (rule filter_cong) (simp_all add: bit_xor_iff)
  then show ?thesis
    using countBitsLoop_filter[OF nn ub] by (simp add: differingBits_def)
qed

lemma example_fingerprints_wellFormed:
  "wellFormedFingerprint (js ''ffffffffffffffff'')"
  "wellFormedFingerprint (js ''efffffffffffffff'')"
  "wellFormedFingerprint (js ''0000000000000000'')"
  by code_simp+

section \<open>Claims about the comparators\<close>

text \<open>
  C1, as amended. The validated comparator \<open>calculateHammingDistance\<close> fails exactly when
  one of its two inputs does not have exactly 16 characters, and then with the error
  "Hashes must be 16-character hex strings"; it does not look at what the characters
  are. On two inputs of exactly 16 hexadecimal characters it returns the Hamming distance
  of the two 64-bit values they denote, the number of bit positions at which they differ.
\<close>

theorem calculateHammingDistance_fails_iff_length:
  "(isl (calculateHammingDistance a b) \<longleftrightarrow> length a \<noteq> 16 \<or> length b \<noteq> 16) \<and>
   (length a \<noteq> 16 \<or> length b \<noteq> 16 \<longrightarrow>
      calculateHammingDistance a b = Inl (Error ''Hashes must be 16-character hex strings'')) \<and>
   (wellFormedFingerprint a \<and> wellFormedFingerprint b \<longrightarrow>
      calculateHammingDistance a b = Inr (differingBits (hexValue a) (hexValue b)))"
proof (intro conjI impI)
  show "isl (calculateHammingDistance a b) \<longleftrightarrow> length a \<noteq> 16 \<or> length b \<noteq> 16"
    by (simp add: calculateHammingDistance_def)
next
  assume "length a \<noteq> 16 \<or> length b \<noteq> 16"
  then show "calculateHammingDistance a b = Inl (Error ''Hashes must be 16-character hex strings'')"
    by (simp add: calculateHammingDistance_def)
next
  assume wf: "wellFormedFingerprint a \<and> wellFormedFingerprint b"
  then have ra: "0 \<le> hexValue a" "hexValue a < 2 ^ 64" and rb: "0 \<le> hexValue b" "hexValue b < 2 ^ 64"
    using hexValue_fingerprint_range by blast+
  show "calculateHammingDistance a b = Inr (differingBits (hexValue a) (hexValue b))"
    using wf countBitsLoop_differingBits[OF ra rb] by (simp add: calculateHammingDistance_hex)
qed

theorem calculateHammingDistance_fails_iff_length_witness:
  "wellFormedFingerprint (js ''ffffffffffffffff'') \<and>
   wellFormedFingerprint (js ''efffffffffffffff'') \<and>
   length (js ''short'') \<noteq> 16 \<and>
   calculateHammingDistance (js ''ffffffffffffffff'') (js ''efffffffffffffff'') =
     Inr (differingBits (hexValue (js ''ffffffffffffffff'')) (hexValue (js ''efffffffffffffff''))) \<and>
   differingBits (hexValue (js ''ffffffffffffffff'')) (hexValue (js ''efffffffffffffff'')) = 1 \<and>
   calculateHammingDistance (js ''short'') (js ''efffffffffffffff'') =
     Inl (Error ''Hashes must be 16-character hex strings'')"
proof -
  have l: "length (js ''short'') \<noteq> 16" by (simp add: js_def)
  have d: "differingBits (hexValue (js ''ffffffffffffffff'')) (hexValue (js ''efffffffffffffff'')) = 1"
    by code_simp
  show ?thesis
    using calculateHammingDistance_fails_iff_length
            [of "js ''ffffffffffffffff''" "js ''efffffffffffffff''"]
          calculateHammingDistance_fails_iff_length
            [of "js ''short''" "js ''efffffffffffffff''"]
          example_fingerprints_wellFormed l d
    by blast
qed

text \<open>
  C1 as stated fails: the input \<open>zzzzzzzzzzzzzzzz\<close> has 16 characters, none of them
  hexadecimal, and the validated comparator returns a number for it instead of
  failing.
\<close>

theorem calculateHammingDistance_nonhex_counterexample:
  "\<not> (isl (calculateHammingDistance (js ''zzzzzzzzzzzzzzzz'') (js ''0000000000000000'')) \<longleftrightarrow>
       \<not> wellFormedFingerprint (js ''zzzzzzzzzzzzzzzz'') \<or>
       \<not> wellFormedFingerprint (js ''0000000000000000''))"
proof -
  have "calculateHammingDistance (js ''zzzzzzzzzzzzzzzz'') (js ''0000000000000000'') = Inr 0"
    by code_simp
  moreover have "\<not> wellFormedFingerprint (js ''zzzzzzzzzzzzzzzz'')"
    by code_simp
  ultimately show ?thesis by simp
qed

text \<open>
  C4. On two strings of exactly 16 hexadecimal characters each, the validated comparator
  \<open>calculateHammingDistance\<close>, which works through the hashes in four chunks of four
  characters, returns the same value as the fast path \<open>hammingDistance\<close>, which
  takes the two values as single big integers.
\<close>

theorem calculateHammingDistance_eq_hammingDistance:
  assumes "wellFormedFingerprint a" and "wellFormedFingerprint b"
  shows "calculateHammingDistance a b = hammingDistance a b"
  using assms by (simp add: calculateHammingDistance_hex hammingDistance_hex)

theorem calculateHammingDistance_eq_hammingDistance_witness:
  "wellFormedFingerprint (js ''f000000000000000'') \<and>
   wellFormedFingerprint (js ''0000000000000000'') \<and>
   calculateHammingDistance (js ''f000000000000000'') (js ''0000000000000000'') =
     hammingDistance (js ''f000000000000000'') (js ''0000000000000000'') \<and>
   hammingDistance (js ''f000000000000000'') (js ''0000000000000000'') = Inr 4"
proof -
  have a: "wellFormedFingerprint (js ''f000000000000000'')" by code_simp
  have b: "wellFormedFingerprint (js ''0000000000000000'')" by code_simp
  have c: "hammingDistance (js ''f000000000000000'') (js ''0000000000000000'') = Inr 4"
    by code_simp
  show ?thesis
    using calculateHammingDistance_eq_hammingDistance[OF a b] a b c by simp
qed

text \<open>
  C8. For well-formed fingerprints \<open>a\<close> and \<open>b\<close> (16 hexadecimal characters each) the
  fast path \<open>hammingDistance\<close> returns 0 on \<open>(a, a)\<close>, returns the same on \<open>(a, b)\<close>
  and on \<open>(b, a)\<close>, and returns a number between 0 and 64.
\<close>

theorem hammingDistance_metric:
  assumes "wellFormedFingerprint a" and "wellFormedFingerprint b"
  shows "hammingDistance a a = Inr 0 \<and>
         hammingDistance a b = hammingDistance b a \<and>
         (\<exists>d. hammingDistance a b = Inr d \<and> 0 \<le> d \<and> d \<le> 64)"
proof (intro conjI)
  show "hammingDistance a a = Inr 0"
    using assms(1) by (simp add: hammingDistance_hex countBitsLoop_nonpos)
  show "hammingDistance a b = hammingDistance b a"
    using assms by (simp add: hammingDistance_hex xor.commute)
  from countBitsLoop_bounds[OF hexValue_xor_range[OF assms]]
  show "\<exists>d. hammingDistance a b = Inr d \<and> 0 \<le> d \<and> d \<le> 64"
    using assms by (simp add: hammingDistance_hex)
qed

theorem hammingDistance_metric_witness:
  "wellFormedFingerprint (js ''0000000000000000'') \<and>
   wellFormedFingerprint (js ''ffffffffffffffff'') \<and>
   hammingDistance (js ''0000000000000000'') (js ''0000000000000000'') = Inr 0 \<and>
   hammingDistance (js ''0000000000000000'') (js ''ffffffffffffffff'') =
     hammingDistance (js ''ffffffffffffffff'') (js ''0000000000000000'') \<and>
   hammingDistance (js ''0000000000000000'') (js ''ffffffffffffffff'') = Inr 64"
proof -
  have a: "wellFormedFingerprint (js ''0000000000000000'')" by code_simp
  have b: "wellFormedFingerprint (js ''ffffffffffffffff'')" by code_simp
  have c: "hammingDistance (js ''0000000000000000'') (js ''ffffffffffffffff'') = Inr 64"
    by code_simp
  note m = hammingDistance_metric[OF a b]
  from m have z: "hammingDistance (js ''0000000000000000'') (js ''0000000000000000'') = Inr 0"
    by (rule conjunct1)
  from m have y: "hammingDistance (js ''0000000000000000'') (js ''ffffffffffffffff'') =
      hammingDistance (js ''ffffffffffffffff'') (js ''0000000000000000'')"
    by (rule conjunct2 [THEN conjunct1])
  from a b z y c show ?thesis by (intro conjI)
qed

text \<open>
  C7. \<open>getMatchType\<close> maps every distance from 0 to 64 by exact boundaries: 0 to
  "exact", 1 to 3 to "near", 4 to 10 to "similar" and 11 to 64 to "different". Each
  class is exactly its range, so the four ranges cover 0..64 without gap or overlap.
\<close>

theorem getMatchType_ranges:
  assumes "0 \<le> d" and "d \<le> 64"
  shows "(getMatchType d = Exact \<longleftrightarrow> d = 0) \<and>
         (getMatchType d = Near \<longleftrightarrow> 1 \<le> d \<and> d \<le> 3) \<and>
         (getMatchType d = Similar \<longleftrightarrow> 4 \<le> d \<and> d \<le> 10) \<and>
         (getMatchType d = Different \<longleftrightarrow> 11 \<le> d \<and> d \<le> 64)"
  using assms by (auto simp: getMatchType_def)

theorem getMatchType_ranges_witness:
  "(0::int) \<le> 3 \<and> (3::int) \<le> 64 \<and> getMatchType 3 = Near \<and> getMatchType 4 = Similar \<and>
   getMatchType 10 = Similar \<and> getMatchType 11 = Different \<and> getMatchType 0 = Exact \<and>
   getMatchType 64 = Different \<and> getMatchType 1 = Near"
  using getMatchType_ranges[of 3] getMatchType_ranges[of 4] getMatchType_ranges[of 10]
        getMatchType_ranges[of 11] getMatchType_ranges[of 0] getMatchType_ranges[of 64]
        getMatchType_ranges[of 1]
  by simp

section \<open>Division of numbers\<close>

lemma roundHalfEven_near: "\<bar>of_int (roundHalfEven x) - x\<bar> \<le> 1 / 2"
proof -
  have "of_int \<lfloor>x\<rfloor> \<le> x" "x < of_int \<lfloor>x\<rfloor> + 1" by linarith+
  then show ?thesis
    by (auto simp: roundHalfEven_def Let_def abs_le_iff)
qed

lemma binaryExponent_le:
  assumes "0 < a" "0 < b"
  shows "(2::rat) powi binaryExponent a b \<le> of_int a / of_int b"
proof -
  define A where "A = nat (bitlen a)"
  define B where "B = nat (bitlen b)"
  have la: "bitlen a = int A" and lb: "bitlen b = int B"
    by (simp_all add: A_def B_def bitlen_nonneg)
  have n: "nat (x - 1) = nat x - 1" for x :: int by arith
  from bitlen_bounds[OF assms(1)] have a1: "2 ^ (A - 1) \<le> a" and a2: "a < 2 ^ A"
    by (simp_all add: A_def n)
  from bitlen_bounds[OF assms(2)] have b1: "2 ^ (B - 1) \<le> b" and b2: "b < 2 ^ B"
    by (simp_all add: B_def n)
  have A1: "1 \<le> A"
  proof (rule ccontr)
    assume "\<not> 1 \<le> A" then have "A = 0" by simp
    with a2 assms(1) show False by simp
  qed
  have bpos: "(0::rat) < of_int b" using assms(2) by simp
  have p1: "(2::rat) powi (int A - int B) = 2 ^ A / 2 ^ B"
    by (simp add: power_int_diff)
  have p2: "(2::rat) powi (int A - int B - 1) = 2 ^ (A - 1) / 2 ^ B"
  proof -
    have e: "int A - int B - 1 = int (A - 1) - int B" using A1 by simp
    have "(2::rat) powi (int (A - 1) - int B) = 2 powi int (A - 1) / 2 powi int B"
      by (rule power_int_diff) simp
    then show ?thesis unfolding e by (simp only: power_int_of_nat)
  qed
  show ?thesis
  proof (cases "b * 2 ^ A \<le> a * 2 ^ B")
    case True
    then have "of_int (b * 2 ^ A) \<le> (of_int (a * 2 ^ B) :: rat)"
      by (rule iffD2[OF of_int_le_iff])
    then have "(2::rat) ^ A * of_int b \<le> of_int a * 2 ^ B" by (simp add: mult.commute)
    then have "(2::rat) ^ A / 2 ^ B \<le> of_int a / of_int b"
      using bpos by (simp add: field_simps)
    with True show ?thesis by (simp add: binaryExponent_def la lb p1 Let_def)
  next
    case False
    have "(of_int (2 ^ (A - 1)) :: rat) \<le> of_int a"
      using a1 by (rule iffD2[OF of_int_le_iff])
    then have x: "(2::rat) ^ (A - 1) \<le> of_int a" by simp
    have "(of_int b :: rat) \<le> of_int (2 ^ B)"
      using b2 by (intro iffD2[OF of_int_le_iff]) simp
    then have y: "(of_int b :: rat) \<le> 2 ^ B" by simp
    from x y have "(2::rat) ^ (A - 1) * of_int b \<le> of_int a * 2 ^ B"
      using bpos assms(1) by (intro mult_mono) simp_all
    then have "(2::rat) ^ (A - 1) / 2 ^ B \<le> of_int a / of_int b"
      using bpos by (simp add: field_simps)
    with False show ?thesis by (simp add: binaryExponent_def la lb p2 Let_def)
  qed
qed

lemma numberDivide_near:
  assumes "0 \<le> a" "0 < b"
  shows "\<bar>numberDivide a b - of_int a / of_int b\<bar> \<le> (of_int a / of_int b) / 2 ^ 53"
proof (cases "a = 0")
  case True
  then show ?thesis by (simp add: numberDivide_def)
next
  case False
  with assms have apos: "0 < a" by simp
  let ?q = "of_int a / of_int b :: rat"
  let ?e = "binaryExponent a b"
  let ?m = "?q * 2 powi (52 - ?e)"
  let ?r = "of_int (roundHalfEven ?m) :: rat"
  have nd: "numberDivide a b = ?r * 2 powi (?e - 52)"
    using apos assms(2) by (simp add: numberDivide_def Let_def)
  have inv: "(2::rat) powi (52 - ?e) * 2 powi (?e - 52) = 1"
    by (simp flip: power_int_add)
  have pos: "(0::rat) < 2 powi (?e - 52)" by (simp add: zero_less_power_int)
  have "numberDivide a b - ?q = (?r - ?m) * 2 powi (?e - 52)"
    using inv by (simp add: nd algebra_simps)
  then have "\<bar>numberDivide a b - ?q\<bar> = \<bar>?r - ?m\<bar> * 2 powi (?e - 52)"
    using pos by (simp add: abs_mult)
  also have "\<dots> \<le> (1 / 2) * 2 powi (?e - 52)"
    using roundHalfEven_near[of ?m] pos by (intro mult_right_mono) simp_all
  also have "\<dots> = 2 powi ?e / 2 ^ 53"
  proof -
    have "(2::rat) powi (?e - 52) = 2 powi ?e / 2 powi 52" by (simp add: power_int_diff)
    then show ?thesis by simp
  qed
  also have "\<dots> \<le> ?q / 2 ^ 53"
    using binaryExponent_le[OF apos assms(2)] by (simp add: divide_right_mono)
  finally show ?thesis .
qed

lemma countBitsLoop_nonneg: "0 \<le> countBitsLoop x 0"
proof (cases "0 \<le> x")
  case True
  have "x < 2 ^ nat x"
  proof -
    have "int (nat x) < 2 ^ nat x" by (metis of_nat_less_two_power)
    with True show ?thesis by simp
  qed
  from countBitsLoop_bounds[OF True this] show ?thesis by simp
next
  case False
  then show ?thesis by (simp add: countBitsLoop_nonpos)
qed

lemma chunkStep_mono: "distance \<le> chunkStep hashA hashB distance i"
  unfolding chunkStep_def Let_def
  using countBitsLoop_acc[of _ distance] countBitsLoop_nonneg
  by (metis add.commute le_add_same_cancel2)

lemma calculateHammingDistance_nonneg:
  assumes "calculateHammingDistance a b = Inr d"
  shows "0 \<le> d"
proof -
  have "x \<le> foldl (chunkStep a b) x is" for x "is"
  proof (induction "is" arbitrary: x)
    case Nil
    show ?case by simp
  next
    case (Cons i "is")
    have "x \<le> chunkStep a b x i" by (rule chunkStep_mono)
    also have "\<dots> \<le> foldl (chunkStep a b) (chunkStep a b x i) is" by (rule Cons.IH)
    finally show ?case by simp
  qed
  from this[of 0 "[0, 4, 8, 12]"] assms show ?thesis
    by (auto simp: calculateHammingDistance_def split: if_splits)
qed

lemma map_Inr_results:
  "map f ms = map Inr ds \<Longrightarrow> d \<in> set ds \<Longrightarrow> \<exists>m. f m = Inr d"
proof (induction ms arbitrary: ds)
  case Nil
  then show ?case by simp
next
  case (Cons m ms)
  then obtain d' ds' where ds: "ds = d' # ds'" by (cases ds) auto
  with Cons.prems have h: "f m = Inr d'" and t: "map f ms = map Inr ds'" by simp_all
  show ?case
  proof (cases "d = d'")
    case True
    with h show ?thesis by blast
  next
    case False
    with Cons.prems(2) ds have "d \<in> set ds'" by simp
    from Cons.IH[OF t this] show ?thesis .
  qed
qed

lemma numberMean_near:
  assumes "\<forall>d \<in> set ds. 0 \<le> d"
  shows "\<bar>numberMean ds - meanDistance ds\<bar> \<le> meanDistance ds / 2 ^ 53"
proof (cases "ds = []")
  case True
  then show ?thesis by (simp add: numberMean_def meanDistance_def)
next
  case False
  have s: "0 \<le> sum_list ds" using assms by (simp add: sum_list_nonneg)
  have l: "0 < int (length ds)" using False by simp
  from numberDivide_near[OF s l] False show ?thesis
    by (simp add: numberMean_def meanDistance_def)
qed

section \<open>The sort of the copy\<close>

lemma set_take_drop: "set (take n zs) \<union> set (drop n zs) = set zs"
  by (metis append_take_drop_id set_append)

lemma set_binaryInsert: "set (binaryInsert cmp work pivot) = insert pivot (set work)"
  using set_take_drop[of _ work] by (auto simp: binaryInsert_def Let_def)

lemma set_foldl_binaryInsert:
  "set (foldl (binaryInsert cmp) run rest) = set run \<union> set rest"
  by (induction rest arbitrary: run) (auto simp: set_binaryInsert)

lemma set_timSortShort: "set (timSortShort cmp xs) = set xs"
proof (cases xs)
  case Nil
  then show ?thesis by (simp add: timSortShort_def)
next
  case (Cons x0 ys)
  show ?thesis
  proof (cases ys)
    case Nil
    with Cons show ?thesis by (simp add: timSortShort_def)
  next
    case (Cons x1 rest)
    have "insert a (insert b (set (take n rest) \<union> set (drop n rest))) =
          insert b (insert a (set rest))" for a b :: 'a and n
      by (auto simp: set_take_drop)
    then show ?thesis
      using Cons \<open>xs = x0 # ys\<close>
      by (simp add: timSortShort_def Let_def set_foldl_binaryInsert set_take_drop insert_commute)
  qed
qed

lemma set_sortNewestFirst: "set (sortNewestFirst articles) = set articles"
  by (simp add: sortNewestFirst_def set_timSortShort)

lemma sortNewestFirst_parsed:
  "list_all (\<lambda>a. publishedAt a \<noteq> None) articles \<Longrightarrow>
   sortNewestFirst articles = sort_key timeKey articles"
  by (simp add: sortNewestFirst_def)

section \<open>The loops of the cluster builder\<close>

lemma scanCandidates_result:
  "scanCandidates article threshold cands st = Inr st' \<Longrightarrow>
   \<exists>ms ds. scanResultOK article cands st st' ms ds"
proof (induction cands arbitrary: st)
  case Nil
  then have "scanResultOK article [] st st' [] []"
    by (simp add: scanResultOK_def)
  then show ?case by blast
next
  case (Cons c cands)
  obtain members assigned tot where st: "st = (members, assigned, tot)"
    by (rule prod_cases3)
  show ?case
  proof (cases "artId c = artId article \<or> artId c \<in> assigned")
    case True
    with Cons.prems st have "scanCandidates article threshold cands st = Inr st'" by simp
    from Cons.IH[OF this] obtain ms ds where "scanResultOK article cands st st' ms ds" by blast
    then have "scanResultOK article (c # cands) st st' ms ds"
      using list_emb_Cons[of "(=)" ms cands c] by (auto simp: scanResultOK_def)
    then show ?thesis by blast
  next
    case False
    show ?thesis
    proof (cases "calculateHammingDistance (simHash article) (simHash c)")
      case (Inl e)
      with Cons.prems st False show ?thesis by simp
    next
      case (Inr d)
      show ?thesis
      proof (cases "d \<le> threshold")
        case True
        let ?st1 = "(members @ [artId c], insert (artId c) assigned, tot + d)"
        from Cons.prems st False Inr True
        have "scanCandidates article threshold cands ?st1 = Inr st'" by simp
        from Cons.IH[OF this] obtain ms ds where ok: "scanResultOK article cands ?st1 st' ms ds"
          by blast
        have "scanResultOK article (c # cands) st st' (c # ms) (d # ds)"
          using ok False Inr st unfolding scanResultOK_def by auto
        then show ?thesis by blast
      next
        case F2: False
        with Cons.prems st False Inr
        have "scanCandidates article threshold cands st = Inr st'" by simp
        from Cons.IH[OF this] obtain ms ds where "scanResultOK article cands st st' ms ds" by blast
        then have "scanResultOK article (c # cands) st st' ms ds"
          using list_emb_Cons[of "(=)" ms cands c] by (auto simp: scanResultOK_def)
        then show ?thesis by blast
      qed
    qed
  qed
qed

lemma scanCandidates_succeeds:
  assumes "length (simHash article) = 16" "\<forall>c \<in> set cands. length (simHash c) = 16"
  shows "\<exists>st'. scanCandidates article threshold cands st = Inr st'"
  using assms(2)
proof (induction cands arbitrary: st)
  case Nil
  show ?case by (simp del: split_paired_Ex)
next
  case (Cons c cands)
  obtain members assigned tot where st: "st = (members, assigned, tot)"
    by (rule prod_cases3)
  from Cons.prems have lc: "length (simHash c) = 16" and rest: "\<forall>c \<in> set cands. length (simHash c) = 16"
    by simp_all
  have "\<exists>d. calculateHammingDistance (simHash article) (simHash c) = Inr d"
    using assms(1) lc by (simp add: calculateHammingDistance_def)
  then obtain d where d: "calculateHammingDistance (simHash article) (simHash c) = Inr d" by blast
  show ?case
    using Cons.IH[OF rest] st d by (simp del: split_paired_Ex)
qed


lemma makeGroup_groupOK:
  assumes "scanResultOK article S ([artId article], assigned, 0) (members, assigned', tot) ms ds"
    and "article \<in> set S"
  shows "groupOK S (makeGroup groups article members tot)"
proof -
  from assms(1) have m: "members = artId article # map artId ms" and t: "tot = sum_list ds"
    and sub: "set ms \<subseteq> set S"
    and d: "map (\<lambda>m. calculateHammingDistance (simHash article) (simHash m)) ms = map Inr ds"
    by (simp_all add: scanResultOK_def)
  from d have "length ms = length ds" by (rule map_eq_imp_length_eq)
  then have "averageDistance (makeGroup groups article members tot) = numberMean ds"
    by (auto simp: makeGroup_def m t numberMean_def)
  then show ?thesis
    unfolding groupOK_def using assms(2) sub d m
    by (intro exI[of _ article] exI[of _ ms] exI[of _ ds]) (simp add: makeGroup_def)
qed

lemma groupLoop_groups:
  "groupLoop threshold S rest (groups, assigned) = Inr result \<Longrightarrow> set rest \<subseteq> set S \<Longrightarrow>
   \<forall>g \<in> set groups. groupOK S g \<Longrightarrow> \<forall>g \<in> set result. groupOK S g"
proof (induction rest arbitrary: groups assigned)
  case Nil
  then show ?case by simp
next
  case (Cons a rest)
  from Cons.prems(2) have sub: "set rest \<subseteq> set S" and aS: "a \<in> set S" by simp_all
  show ?case
  proof (cases "artId a \<in> assigned")
    case True
    with Cons.prems(1) have "groupLoop threshold S rest (groups, assigned) = Inr result" by simp
    from Cons.IH[OF this sub Cons.prems(3)] show ?thesis .
  next
    case False
    show ?thesis
    proof (cases "scanCandidates a threshold S ([artId a], assigned, 0)")
      case (Inl e)
      with Cons.prems(1) False show ?thesis by simp
    next
      case (Inr st')
      obtain members assigned' tot where st': "st' = (members, assigned', tot)"
        by (rule prod_cases3)
      from scanCandidates_result[OF Inr] st' obtain ms ds
        where ok: "scanResultOK a S ([artId a], assigned, 0) (members, assigned', tot) ms ds"
        by blast
      let ?g = "makeGroup groups a members tot"
      have run: "groupLoop threshold S rest (groups @ [?g], insert (artId a) assigned') = Inr result"
        using Cons.prems(1) False Inr st' by simp
      have "\<forall>g \<in> set (groups @ [?g]). groupOK S g"
        using Cons.prems(3) makeGroup_groupOK[OF ok aS] by simp
      from Cons.IH[OF run sub this] show ?thesis .
    qed
  qed
qed

lemma memberIds_makeGroup: "memberIds (makeGroup groups a members tot) = members"
  by (simp add: makeGroup_def)

lemma allMemberIds_snoc: "allMemberIds (groups @ [g]) = allMemberIds groups @ memberIds g"
  by (simp add: allMemberIds_def)

lemma groupLoop_partition:
  "groupLoop threshold S rest (groups, assigned) = Inr result \<Longrightarrow> set rest \<subseteq> set S \<Longrightarrow>
   distinct (allMemberIds groups) \<Longrightarrow> set (allMemberIds groups) = assigned \<Longrightarrow>
   assigned \<subseteq> artId ` set S \<Longrightarrow>
   distinct (allMemberIds result) \<and> set (allMemberIds result) \<subseteq> artId ` set S \<and>
   assigned \<union> artId ` set rest \<subseteq> set (allMemberIds result)"
proof (induction rest arbitrary: groups assigned)
  case Nil
  then show ?case by simp
next
  case (Cons a rest)
  from Cons.prems(2) have sub: "set rest \<subseteq> set S" and aS: "a \<in> set S" by simp_all
  show ?case
  proof (cases "artId a \<in> assigned")
    case True
    with Cons.prems(1) have "groupLoop threshold S rest (groups, assigned) = Inr result" by simp
    from Cons.IH[OF this sub Cons.prems(3,4,5)] True show ?thesis by auto
  next
    case False
    show ?thesis
    proof (cases "scanCandidates a threshold S ([artId a], assigned, 0)")
      case (Inl e)
      with Cons.prems(1) False show ?thesis by simp
    next
      case (Inr st')
      obtain members assigned' tot where st': "st' = (members, assigned', tot)"
        by (rule prod_cases3)
      from scanCandidates_result[OF Inr] st' obtain ms ds
        where ok: "scanResultOK a S ([artId a], assigned, 0) (members, assigned', tot) ms ds"
        by blast
      then have m: "members = artId a # map artId ms"
        and as: "assigned' = assigned \<union> artId ` set ms"
        and dm: "distinct (map artId ms)"
        and dj: "artId ` set ms \<inter> assigned = {}"
        and na: "artId a \<notin> artId ` set ms"
        and ms: "set ms \<subseteq> set S"
        by (simp_all add: scanResultOK_def)
      let ?g = "makeGroup groups a members tot"
      note mg = memberIds_makeGroup
      have run: "groupLoop threshold S rest (groups @ [?g], insert (artId a) assigned') = Inr result"
        using Cons.prems(1) False Inr st' by simp
      have d: "distinct (allMemberIds (groups @ [?g]))"
        using Cons.prems(3,4) False dm dj na
        by (auto simp: allMemberIds_snoc mg m)
      have s: "set (allMemberIds (groups @ [?g])) = insert (artId a) assigned'"
        using Cons.prems(4) by (auto simp: allMemberIds_snoc mg m as)
      have i: "insert (artId a) assigned' \<subseteq> artId ` set S"
        using Cons.prems(5) aS ms as by auto
      from Cons.IH[OF run sub d s i] as show ?thesis by auto
    qed
  qed
qed

lemma groupLoop_succeeds:
  assumes "\<forall>c \<in> set S. length (simHash c) = 16"
  shows "set rest \<subseteq> set S \<Longrightarrow> \<exists>result. groupLoop threshold S rest (groups, assigned) = Inr result"
proof (induction rest arbitrary: groups assigned)
  case Nil
  show ?case by simp
next
  case (Cons a rest)
  from Cons.prems have sub: "set rest \<subseteq> set S" and aS: "a \<in> set S" by simp_all
  from aS assms have la: "length (simHash a) = 16" by blast
  from scanCandidates_succeeds[OF la assms, of threshold "([artId a], assigned, 0)"]
  obtain members assigned' tot
    where sc: "scanCandidates a threshold S ([artId a], assigned, 0) = Inr (members, assigned', tot)"
    by (metis prod_cases3)
  show ?case
    using Cons.IH[OF sub] sc by simp
qed

section \<open>Claims about the cluster builder\<close>

lemma scenario_groups:
  "groupArticlesBySimilarity scenarioBatch 3 =
     Inr [\<lparr> groupId = js ''cluster-1'', centerArticleId = js ''a1'',
             memberIds = [js ''a1'', js ''a2''], averageDistance = 1 \<rparr>,
          \<lparr> groupId = js ''cluster-2'', centerArticleId = js ''a3'',
             memberIds = [js ''a3''], averageDistance = 0 \<rparr>]"
  by code_simp

lemma scenario_wellFormed:
  "distinct (map artId scenarioBatch)"
  "list_all (\<lambda>a. wellFormedFingerprint (simHash a)) scenarioBatch"
  by code_simp+

lemma groupArticlesBySimilarity_nonempty:
  "articles \<noteq> [] \<Longrightarrow>
   groupArticlesBySimilarity articles threshold =
     groupLoop threshold (sortNewestFirst articles) (sortNewestFirst articles) ([], {})"
  by (simp add: groupArticlesBySimilarity_def Let_def)

text \<open>
  C3. For every batch of documents with pairwise distinct ids and well-formed
  fingerprints, \<open>groupArticlesBySimilarity\<close> returns clusters (it does not fail) whose
  member id lists, taken together, contain no id twice and contain exactly the ids of
  the batch; for the empty batch it returns the empty cluster list.
\<close>

theorem groupArticlesBySimilarity_partition:
  "(distinct (map artId articles) \<and>
    list_all (\<lambda>a. wellFormedFingerprint (simHash a)) articles \<longrightarrow>
      (\<exists>groups. groupArticlesBySimilarity articles threshold = Inr groups \<and>
         distinct (allMemberIds groups) \<and>
         set (allMemberIds groups) = set (map artId articles))) \<and>
   groupArticlesBySimilarity [] threshold = Inr []"
proof (intro conjI impI)
  show "groupArticlesBySimilarity [] threshold = Inr []"
    by (simp add: groupArticlesBySimilarity_def)
next
  assume a: "distinct (map artId articles) \<and>
    list_all (\<lambda>a. wellFormedFingerprint (simHash a)) articles"
  let ?S = "sortNewestFirst articles"
  show "\<exists>groups. groupArticlesBySimilarity articles threshold = Inr groups \<and>
         distinct (allMemberIds groups) \<and>
         set (allMemberIds groups) = set (map artId articles)"
  proof (cases "articles = []")
    case True
    then show ?thesis by (simp add: groupArticlesBySimilarity_def allMemberIds_def)
  next
    case False
    from a have len: "\<forall>c \<in> set ?S. length (simHash c) = 16"
      by (simp add: set_sortNewestFirst list_all_iff wellFormedFingerprint_def)
    from groupLoop_succeeds[OF len, of ?S threshold "[]" "{}"]
    obtain groups where run: "groupLoop threshold ?S ?S ([], {}) = Inr groups" by auto
    have "distinct (allMemberIds groups) \<and> set (allMemberIds groups) \<subseteq> artId ` set ?S \<and>
          {} \<union> artId ` set ?S \<subseteq> set (allMemberIds groups)"
      by (rule groupLoop_partition[OF run]) (simp_all add: allMemberIds_def)
    then have "distinct (allMemberIds groups) \<and> set (allMemberIds groups) = set (map artId articles)"
      by (auto simp: set_sortNewestFirst)
    with run False show ?thesis
      by (simp add: groupArticlesBySimilarity_nonempty)
  qed
qed

theorem groupArticlesBySimilarity_partition_witness:
  "distinct (map artId scenarioBatch) \<and>
   list_all (\<lambda>a. wellFormedFingerprint (simHash a)) scenarioBatch \<and>
   (\<exists>groups. groupArticlesBySimilarity scenarioBatch 3 = Inr groups \<and>
      distinct (allMemberIds groups) \<and>
      set (allMemberIds groups) = set (map artId scenarioBatch))"
  using groupArticlesBySimilarity_partition[of scenarioBatch 3] scenario_wellFormed
  by blast

lemma thirds_groups:
  "groupArticlesBySimilarity thirdsBatch 3 =
     Inr [\<lparr> groupId = js ''cluster-1'', centerArticleId = js ''c'',
             memberIds = [js ''c'', js ''m1'', js ''m2'', js ''m3''],
             averageDistance = 6004799503160661 / 4503599627370496 \<rparr>]"
  by code_simp

text \<open>
  C5, as amended. For every batch, each cluster that \<open>groupArticlesBySimilarity\<close>
  returns consists of a center document and further member documents of the batch,
  listed center first, and its \<open>averageDistance\<close> is the sum of the Hamming distances
  between the center's fingerprint and each further member's fingerprint divided by
  their number in double-precision arithmetic: the double nearest to their arithmetic
  mean, which differs from the mean by at most the mean times \<open>2^-53\<close>. A cluster whose
  only member is its center has \<open>averageDistance\<close> 0.
\<close>

theorem groupArticlesBySimilarity_averageDistance:
  assumes "groupArticlesBySimilarity articles threshold = Inr groups" and "g \<in> set groups"
  shows "(\<exists>c ms ds. c \<in> set articles \<and> set ms \<subseteq> set articles \<and>
            centerArticleId g = artId c \<and> memberIds g = artId c # map artId ms \<and>
            map (\<lambda>m. calculateHammingDistance (simHash c) (simHash m)) ms = map Inr ds \<and>
            averageDistance g = numberMean ds \<and>
            \<bar>averageDistance g - meanDistance ds\<bar> \<le> meanDistance ds / 2 ^ 53) \<and>
         (memberIds g = [centerArticleId g] \<longrightarrow> averageDistance g = 0)"
proof -
  let ?S = "sortNewestFirst articles"
  have ne: "articles \<noteq> []"
    using assms by (auto simp: groupArticlesBySimilarity_def)
  with assms(1) have run: "groupLoop threshold ?S ?S ([], {}) = Inr groups"
    by (simp add: groupArticlesBySimilarity_nonempty)
  have "\<forall>g \<in> set groups. groupOK ?S g"
    by (rule groupLoop_groups[OF run]) simp_all
  with assms(2) have "groupOK ?S g" by blast
  then obtain c ms ds where ok: "c \<in> set articles" "set ms \<subseteq> set articles"
      "centerArticleId g = artId c" "memberIds g = artId c # map artId ms"
      "map (\<lambda>m. calculateHammingDistance (simHash c) (simHash m)) ms = map Inr ds"
      "averageDistance g = numberMean ds"
    unfolding groupOK_def set_sortNewestFirst by blast
  have nonneg: "\<forall>d \<in> set ds. 0 \<le> d"
  proof
    fix d assume "d \<in> set ds"
    from map_Inr_results[OF ok(5) this]
    obtain m :: ArticleInput
      where "calculateHammingDistance (simHash c) (simHash m) = Inr d" ..
    then show "0 \<le> d" by (rule calculateHammingDistance_nonneg)
  qed
  have near: "\<bar>averageDistance g - meanDistance ds\<bar> \<le> meanDistance ds / 2 ^ 53"
    using numberMean_near[OF nonneg] by (simp only: ok(6))
  have "memberIds g = [centerArticleId g] \<longrightarrow> averageDistance g = 0"
  proof
    assume "memberIds g = [centerArticleId g]"
    with ok(3,4) have "ms = []" by simp
    with ok(5) have "ds = []" by simp
    with ok(6) show "averageDistance g = 0" by (simp add: numberMean_def)
  qed
  with ok near show ?thesis by blast
qed

theorem groupArticlesBySimilarity_averageDistance_witness:
  "groupArticlesBySimilarity thirdsBatch 3 =
     Inr [\<lparr> groupId = js ''cluster-1'', centerArticleId = js ''c'',
             memberIds = [js ''c'', js ''m1'', js ''m2'', js ''m3''],
             averageDistance = 6004799503160661 / 4503599627370496 \<rparr>] \<and>
   (\<exists>c ms ds. c \<in> set thirdsBatch \<and> set ms \<subseteq> set thirdsBatch \<and>
      js ''c'' = artId c \<and>
      [js ''c'', js ''m1'', js ''m2'', js ''m3''] = artId c # map artId ms \<and>
      map (\<lambda>m. calculateHammingDistance (simHash c) (simHash m)) ms = map Inr ds \<and>
      (6004799503160661 / 4503599627370496 :: rat) = numberMean ds \<and>
      \<bar>6004799503160661 / 4503599627370496 - meanDistance ds\<bar> \<le> meanDistance ds / 2 ^ 53)"
  using groupArticlesBySimilarity_averageDistance[OF thirds_groups,
      of "\<lparr> groupId = js ''cluster-1'', centerArticleId = js ''c'',
             memberIds = [js ''c'', js ''m1'', js ''m2'', js ''m3''],
             averageDistance = 6004799503160661 / 4503599627370496 \<rparr>"]
        thirds_groups
  by simp

text \<open>
  C5 as stated fails: the center of \<open>thirdsBatch\<close> has three further members at the
  distances 1, 1 and 2, whose arithmetic mean is 4/3; the \<open>averageDistance\<close> of the
  cluster is the double 1.3333333333333333, which is not 4/3.
\<close>

theorem groupArticlesBySimilarity_mean_counterexample:
  "groupArticlesBySimilarity thirdsBatch 3 =
     Inr [\<lparr> groupId = js ''cluster-1'', centerArticleId = js ''c'',
             memberIds = [js ''c'', js ''m1'', js ''m2'', js ''m3''],
             averageDistance = 6004799503160661 / 4503599627370496 \<rparr>] \<and>
   calculateHammingDistance (js ''0000000000000000'') (js ''0000000000000001'') = Inr 1 \<and>
   calculateHammingDistance (js ''0000000000000000'') (js ''0000000000000002'') = Inr 1 \<and>
   calculateHammingDistance (js ''0000000000000000'') (js ''0000000000000003'') = Inr 2 \<and>
   meanDistance [1, 1, 2] = 4 / 3 \<and>
   (6004799503160661 / 4503599627370496 :: rat) \<noteq> 4 / 3"
proof -
  have d1: "calculateHammingDistance (js ''0000000000000000'') (js ''0000000000000001'') = Inr 1"
    by code_simp
  have d2: "calculateHammingDistance (js ''0000000000000000'') (js ''0000000000000002'') = Inr 1"
    by code_simp
  have d3: "calculateHammingDistance (js ''0000000000000000'') (js ''0000000000000003'') = Inr 2"
    by code_simp
  have m: "meanDistance [1, 1, 2] = 4 / 3" by (simp add: meanDistance_def)
  have n: "(6004799503160661 / 4503599627370496 :: rat) \<noteq> 4 / 3" by simp
  from thirds_groups d1 d2 d3 m n show ?thesis by (intro conjI)
qed

lemma scanCandidates_skip_assigned:
  "artId ` set pre \<subseteq> assigned \<Longrightarrow>
   scanCandidates article threshold (pre @ post) (members, assigned, tot) =
   scanCandidates article threshold post (members, assigned, tot)"
  by (induction pre) auto

lemma subseq_pair_distinct:
  "distinct zs \<Longrightarrow> subseq [x, y] zs \<Longrightarrow> subseq [y, x] zs \<Longrightarrow> False"
proof (induction zs)
  case Nil
  then show ?case by simp
next
  case (Cons z zs)
  show ?case
  proof (cases "x = z")
    case True
    with Cons.prems(2) have "y \<in> set zs" by (simp add: subseq_singleton_left)
    with Cons.prems(1) have "y \<noteq> z" by auto
    with Cons.prems(3) have "subseq [y, x] zs" by simp
    then have "subseq [x] zs" by (rule subseq_Cons')
    then have "x \<in> set zs" by (simp add: subseq_singleton_left)
    with True Cons.prems(1) show False by simp
  next
    case False
    with Cons.prems(2) have xy: "subseq [x, y] zs" by simp
    then have "subseq [y] zs" by (rule subseq_Cons')
    then have "y \<in> set zs" by (simp add: subseq_singleton_left)
    with Cons.prems(1) have "y \<noteq> z" by auto
    with Cons.prems(3) have "subseq [y, x] zs" by simp
    with Cons.IH xy Cons.prems(1) show False by simp
  qed
qed

lemma groupLoop_visit:
  "groupLoop threshold S rest (groups, assigned) = Inr result \<Longrightarrow> S = pre @ rest \<Longrightarrow>
   artId ` set pre \<subseteq> assigned \<Longrightarrow>
   \<exists>new. result = groups @ new \<and> visitOK S rest assigned new"
proof (induction rest arbitrary: pre groups assigned)
  case Nil
  then show ?case by (simp add: visitOK_def)
next
  case (Cons a rest)
  have S: "S = (pre @ [a]) @ rest" using Cons.prems(2) by simp
  show ?case
  proof (cases "artId a \<in> assigned")
    case True
    with Cons.prems(1) have run: "groupLoop threshold S rest (groups, assigned) = Inr result"
      by simp
    have "artId ` set (pre @ [a]) \<subseteq> assigned" using True Cons.prems(3) by auto
    from Cons.IH[OF run S this] obtain new
      where n: "result = groups @ new" and v: "visitOK S rest assigned new" by blast
    from v have "subseq (map centerArticleId new) (map artId rest)"
      by (simp add: visitOK_def)
    then have "subseq (map centerArticleId new) (artId a # map artId rest)"
      by (rule list_emb_Cons)
    with v True have "visitOK S (a # rest) assigned new"
      by (simp add: visitOK_def)
    with n show ?thesis by blast
  next
    case False
    show ?thesis
    proof (cases "scanCandidates a threshold S ([artId a], assigned, 0)")
      case (Inl e)
      with Cons.prems(1) False show ?thesis by simp
    next
      case (Inr st')
      obtain members assigned' tot where st': "st' = (members, assigned', tot)"
        by (rule prod_cases3)
      have "scanCandidates a threshold S ([artId a], assigned, 0) =
            scanCandidates a threshold (a # rest) ([artId a], assigned, 0)"
        unfolding Cons.prems(2) by (rule scanCandidates_skip_assigned[OF Cons.prems(3)])
      also have "\<dots> = scanCandidates a threshold rest ([artId a], assigned, 0)" by simp
      finally have "scanCandidates a threshold rest ([artId a], assigned, 0) = Inr st'"
        using Inr by simp
      from scanCandidates_result[OF this] st' obtain ms ds
        where ok: "scanResultOK a rest ([artId a], assigned, 0) (members, assigned', tot) ms ds"
        by blast
      then have m: "members = artId a # map artId ms"
        and as: "assigned' = assigned \<union> artId ` set ms"
        and sq: "subseq ms rest"
        by (simp_all add: scanResultOK_def)
      let ?g = "makeGroup groups a members tot"
      have gm: "memberIds ?g = artId a # map artId ms" and gc: "centerArticleId ?g = artId a"
        by (simp_all add: makeGroup_def m)
      have run: "groupLoop threshold S rest (groups @ [?g], insert (artId a) assigned') = Inr result"
        using Cons.prems(1) False Inr st' by simp
      have pre': "artId ` set (pre @ [a]) \<subseteq> insert (artId a) assigned'"
        using Cons.prems(3) as by auto
      from Cons.IH[OF run S pre'] obtain new
        where n: "result = (groups @ [?g]) @ new"
          and v: "visitOK S rest (insert (artId a) assigned') new" by blast
      have "subseq (map artId ms) (map artId rest)" using sq by (rule subseq_map)
      then have "subseq (artId a # map artId ms) (map artId (a # rest))" by simp
      then have "subseq (artId a # map artId ms) (map artId pre @ map artId (a # rest))"
        by (rule list_emb_append2)
      then have gs: "subseq (memberIds ?g) (map artId S)"
        by (simp add: gm Cons.prems(2))
      have "visitOK S (a # rest) assigned (?g # new)"
        using v gs gc gm by (simp add: visitOK_def)
      with n show ?thesis by simp
    qed
  qed
qed

lemma sortNewestFirst_stable_parsed:
  assumes "list_all (\<lambda>a. publishedAt a \<noteq> None) articles"
  shows "filter (\<lambda>a. publishedAt a = t) (sortNewestFirst articles) =
         filter (\<lambda>a. publishedAt a = t) articles"
proof (cases t)
  case None
  have "filter (\<lambda>a. publishedAt a = None) xs = []" if "set xs = set articles" for xs
    using assms that by (auto simp: filter_empty_conv list_all_iff)
  from this[of articles] this[of "sortNewestFirst articles"] None show ?thesis
    by (simp add: set_sortNewestFirst)
next
  case (Some \<tau>)
  have eq: "filter (\<lambda>a. publishedAt a = Some \<tau>) xs = filter (\<lambda>a. timeKey a = - \<tau>) xs"
    if "set xs = set articles" for xs
  proof (rule filter_cong[OF refl])
    fix a assume "a \<in> set xs"
    with that assms have "publishedAt a \<noteq> None" by (simp add: list_all_iff)
    then show "(publishedAt a = Some \<tau>) = (timeKey a = - \<tau>)"
      by (auto simp: timeKey_def)
  qed
  have "filter (\<lambda>a. timeKey a = - \<tau>) (sort_key timeKey articles) =
        filter (\<lambda>a. timeKey a = - \<tau>) articles"
    by (rule sort_key_stable)
  then show ?thesis
    using eq[of articles] eq[of "sortNewestFirst articles"] Some
    by (simp add: set_sortNewestFirst sortNewestFirst_parsed[OF assms])
qed

lemma distinct_ids_sortNewestFirst:
  assumes "list_all (\<lambda>a. publishedAt a \<noteq> None) articles" "distinct (map artId articles)"
  shows "distinct (map artId (sortNewestFirst articles))"
  using assms(2) by (simp add: distinct_map sortNewestFirst_parsed[OF assms(1)])

text \<open>
  C10, as amended. For every batch in which every publication date parses, the list that
  \<open>groupArticlesBySimilarity\<close> visits is the batch in descending order of publication
  time with documents of equal publication time in their original relative input order
  (the sort is stable), and the loops follow that order: the centers of the returned
  clusters appear in visiting order, each cluster lists its center first and then its
  members in visiting order, and the first cluster's center is the first document
  visited. So ties are resolved by input order: when ids are pairwise distinct, a
  document is never a member of a cluster whose center has the same publication time and
  comes later in the input. The cluster list is a function of the input list.
\<close>

theorem groupArticlesBySimilarity_tie_break:
  assumes "list_all (\<lambda>a. publishedAt a \<noteq> None) articles"
    and "groupArticlesBySimilarity articles threshold = Inr groups"
  shows "sorted (map timeKey (sortNewestFirst articles)) \<and>
         filter (\<lambda>a. publishedAt a = t) (sortNewestFirst articles) =
           filter (\<lambda>a. publishedAt a = t) articles \<and>
         subseq (map centerArticleId groups) (map artId (sortNewestFirst articles)) \<and>
         (\<forall>g \<in> set groups. subseq (memberIds g) (map artId (sortNewestFirst articles)) \<and>
            (\<exists>ids. memberIds g = centerArticleId g # ids)) \<and>
         (articles \<noteq> [] \<longrightarrow>
            groups \<noteq> [] \<and>
            centerArticleId (hd groups) = artId (hd (sortNewestFirst articles))) \<and>
         (distinct (map artId articles) \<longrightarrow>
            (\<forall>g \<in> set groups. \<forall>a b.
               subseq [a, b] articles \<and> publishedAt a = publishedAt b \<and>
               centerArticleId g = artId b \<longrightarrow> artId a \<notin> set (memberIds g)))"
proof -
  let ?S = "sortNewestFirst articles"
  have sorted: "sorted (map timeKey ?S)"
    by (simp add: sortNewestFirst_parsed[OF assms(1)])
  note stable = sortNewestFirst_stable_parsed[OF assms(1)]
  have visit: "subseq (map centerArticleId groups) (map artId ?S) \<and>
      (\<forall>g \<in> set groups. subseq (memberIds g) (map artId ?S) \<and>
            (\<exists>ids. memberIds g = centerArticleId g # ids)) \<and>
      (articles \<noteq> [] \<longrightarrow> groups \<noteq> [] \<and> centerArticleId (hd groups) = artId (hd ?S))"
  proof (cases "articles = []")
    case True
    with assms(2) show ?thesis by (simp add: groupArticlesBySimilarity_def)
  next
    case False
    with assms(2) have run: "groupLoop threshold ?S ?S ([], {}) = Inr groups"
      by (simp add: groupArticlesBySimilarity_nonempty)
    from groupLoop_visit[OF run, of "[]"] have v: "visitOK ?S ?S {} groups" by simp
    have "?S \<noteq> []" using False set_sortNewestFirst[of articles] by auto
    with v show ?thesis by (simp add: visitOK_def list_all_iff)
  qed
  have tie: "artId a \<notin> set (memberIds g)"
    if d: "distinct (map artId articles)" and g: "g \<in> set groups"
      and ab: "subseq [a, b] articles" and t: "publishedAt a = publishedAt b"
      and c: "centerArticleId g = artId b" for g a b
  proof
    assume mem: "artId a \<in> set (memberIds g)"
    from visit g obtain ids where sq: "subseq (memberIds g) (map artId ?S)"
      and ids: "memberIds g = centerArticleId g # ids" by blast
    from ab have "subseq (map artId [a, b]) (map artId articles)" by (rule subseq_map)
    then have sab: "subseq [artId a, artId b] (map artId articles)" by simp
    have ne: "artId a \<noteq> artId b"
    proof
      assume "artId a = artId b"
      with sab have "subseq [artId b, artId a] (map artId articles)" by simp
      from subseq_pair_distinct[OF d sab this] show False .
    qed
    with mem ids c have "artId a \<in> set ids" by simp
    then have "subseq [artId a] ids" by (simp add: subseq_singleton_left)
    then have "subseq [artId b, artId a] (memberIds g)" by (simp add: ids c)
    then have ba: "subseq [artId b, artId a] (map artId ?S)" using sq by (rule subseq_order.order_trans)
    let ?P = "\<lambda>x. publishedAt x = publishedAt a"
    from ab have "subseq (filter ?P [a, b]) (filter ?P articles)" by (rule subseq_filter)
    then have "subseq [a, b] (filter ?P ?S)" using t by (simp add: stable)
    then have "subseq [a, b] ?S"
      using subseq_filter_left[of ?P ?S] by (rule subseq_order.order_trans)
    then have "subseq (map artId [a, b]) (map artId ?S)" by (rule subseq_map)
    then have "subseq [artId a, artId b] (map artId ?S)" by simp
    from subseq_pair_distinct[OF distinct_ids_sortNewestFirst[OF assms(1) d] this ba]
    show False .
  qed
  from sorted stable visit tie show ?thesis by blast
qed

lemma tie_groups:
  "groupArticlesBySimilarity tieBatch 3 =
     Inr [\<lparr> groupId = js ''cluster-1'', centerArticleId = js ''p'',
             memberIds = [js ''p''], averageDistance = 0 \<rparr>,
          \<lparr> groupId = js ''cluster-2'', centerArticleId = js ''a'',
             memberIds = [js ''a'', js ''b''], averageDistance = 1 \<rparr>,
          \<lparr> groupId = js ''cluster-3'', centerArticleId = js ''y'',
             memberIds = [js ''y''], averageDistance = 0 \<rparr>]"
  by code_simp

lemma tie_facts:
  "list_all (\<lambda>a. publishedAt a \<noteq> None) tieBatch"
  "map artId tieBatch = [js ''y'', js ''a'', js ''p'', js ''b'']"
  "map artId (sortNewestFirst tieBatch) = [js ''p'', js ''a'', js ''b'', js ''y'']"
  by code_simp+

lemma broken_facts:
  "map artId brokenDateBatch =
     [js ''p'', js ''q'', js ''r'', js ''y'', js ''n'', js ''a'', js ''w'', js ''b'']"
  "map publishedAt brokenDateBatch =
     [Some 9000, Some 8000, Some 7000, Some 3000, None, Some 5000, Some 4000, Some 5000]"
  "map artId (sortNewestFirst brokenDateBatch) =
     [js ''p'', js ''q'', js ''r'', js ''b'', js ''y'', js ''n'', js ''a'', js ''w'']"
  by code_simp+

lemma broken_groups:
  "groupArticlesBySimilarity brokenDateBatch 3 =
     Inr [\<lparr> groupId = js ''cluster-1'', centerArticleId = js ''p'',
             memberIds = [js ''p''], averageDistance = 0 \<rparr>,
          \<lparr> groupId = js ''cluster-2'', centerArticleId = js ''q'',
             memberIds = [js ''q''], averageDistance = 0 \<rparr>,
          \<lparr> groupId = js ''cluster-3'', centerArticleId = js ''r'',
             memberIds = [js ''r''], averageDistance = 0 \<rparr>,
          \<lparr> groupId = js ''cluster-4'', centerArticleId = js ''b'',
             memberIds = [js ''b'', js ''a''], averageDistance = 1 \<rparr>,
          \<lparr> groupId = js ''cluster-5'', centerArticleId = js ''y'',
             memberIds = [js ''y''], averageDistance = 0 \<rparr>,
          \<lparr> groupId = js ''cluster-6'', centerArticleId = js ''n'',
             memberIds = [js ''n''], averageDistance = 0 \<rparr>,
          \<lparr> groupId = js ''cluster-7'', centerArticleId = js ''w'',
             memberIds = [js ''w''], averageDistance = 0 \<rparr>]"
  by code_simp

theorem groupArticlesBySimilarity_tie_break_witness:
  "list_all (\<lambda>a. publishedAt a \<noteq> None) tieBatch \<and>
   groupArticlesBySimilarity tieBatch 3 =
     Inr [\<lparr> groupId = js ''cluster-1'', centerArticleId = js ''p'',
             memberIds = [js ''p''], averageDistance = 0 \<rparr>,
          \<lparr> groupId = js ''cluster-2'', centerArticleId = js ''a'',
             memberIds = [js ''a'', js ''b''], averageDistance = 1 \<rparr>,
          \<lparr> groupId = js ''cluster-3'', centerArticleId = js ''y'',
             memberIds = [js ''y''], averageDistance = 0 \<rparr>] \<and>
   map artId tieBatch = [js ''y'', js ''a'', js ''p'', js ''b''] \<and>
   map artId (sortNewestFirst tieBatch) = [js ''p'', js ''a'', js ''b'', js ''y''] \<and>
   filter (\<lambda>x. publishedAt x = Some 5000) (sortNewestFirst tieBatch) =
     filter (\<lambda>x. publishedAt x = Some 5000) tieBatch \<and>
   subseq [js ''p'', js ''a'', js ''y''] (map artId (sortNewestFirst tieBatch)) \<and>
   js ''p'' = artId (hd (sortNewestFirst tieBatch))"
proof -
  note t = groupArticlesBySimilarity_tie_break[OF tie_facts(1) tie_groups, of "Some 5000"]
  have ne: "tieBatch \<noteq> []" by (simp add: tieBatch_def)
  from t have f: "filter (\<lambda>x. publishedAt x = Some 5000) (sortNewestFirst tieBatch) =
     filter (\<lambda>x. publishedAt x = Some 5000) tieBatch"
    by (rule conjunct2[THEN conjunct1])
  from t have c: "subseq [js ''p'', js ''a'', js ''y''] (map artId (sortNewestFirst tieBatch))"
    by simp
  from t ne have h: "js ''p'' = artId (hd (sortNewestFirst tieBatch))"
    by simp
  from tie_facts(1) tie_groups tie_facts(2) tie_facts(3) f c h show ?thesis
    by (intro conjI)
qed

text \<open>
  C10 as stated fails: in \<open>brokenDateBatch\<close> the documents \<open>a\<close> and \<open>b\<close> have the same
  publication time and \<open>a\<close> comes first, but the date of \<open>n\<close> does not parse, the sort
  places \<open>b\<close> before \<open>a\<close>, and \<open>b\<close> becomes the center of the cluster that holds \<open>a\<close>.
\<close>

theorem groupArticlesBySimilarity_tie_break_counterexample:
  "map artId brokenDateBatch =
     [js ''p'', js ''q'', js ''r'', js ''y'', js ''n'', js ''a'', js ''w'', js ''b''] \<and>
   map publishedAt brokenDateBatch =
     [Some 9000, Some 8000, Some 7000, Some 3000, None, Some 5000, Some 4000, Some 5000] \<and>
   map artId (sortNewestFirst brokenDateBatch) =
     [js ''p'', js ''q'', js ''r'', js ''b'', js ''y'', js ''n'', js ''a'', js ''w''] \<and>
   map artId (filter (\<lambda>x. publishedAt x = Some 5000) brokenDateBatch) = [js ''a'', js ''b''] \<and>
   map artId (filter (\<lambda>x. publishedAt x = Some 5000) (sortNewestFirst brokenDateBatch)) =
     [js ''b'', js ''a''] \<and>
   groupArticlesBySimilarity brokenDateBatch 3 =
     Inr [\<lparr> groupId = js ''cluster-1'', centerArticleId = js ''p'',
             memberIds = [js ''p''], averageDistance = 0 \<rparr>,
          \<lparr> groupId = js ''cluster-2'', centerArticleId = js ''q'',
             memberIds = [js ''q''], averageDistance = 0 \<rparr>,
          \<lparr> groupId = js ''cluster-3'', centerArticleId = js ''r'',
             memberIds = [js ''r''], averageDistance = 0 \<rparr>,
          \<lparr> groupId = js ''cluster-4'', centerArticleId = js ''b'',
             memberIds = [js ''b'', js ''a''], averageDistance = 1 \<rparr>,
          \<lparr> groupId = js ''cluster-5'', centerArticleId = js ''y'',
             memberIds = [js ''y''], averageDistance = 0 \<rparr>,
          \<lparr> groupId = js ''cluster-6'', centerArticleId = js ''n'',
             memberIds = [js ''n''], averageDistance = 0 \<rparr>,
          \<lparr> groupId = js ''cluster-7'', centerArticleId = js ''w'',
             memberIds = [js ''w''], averageDistance = 0 \<rparr>]"
proof -
  have f1: "map artId (filter (\<lambda>x. publishedAt x = Some 5000) brokenDateBatch) =
      [js ''a'', js ''b'']"
    by code_simp
  have f2: "map artId (filter (\<lambda>x. publishedAt x = Some 5000)
      (sortNewestFirst brokenDateBatch)) = [js ''b'', js ''a'']"
    by code_simp
  from broken_facts f1 f2 broken_groups show ?thesis by (intro conjI)
qed

lemma readArticles_alloc:
  "readArticles h r = Some xs \<Longrightarrow> readArticles (h @ ys) r = Some xs"
  by (auto simp: readArticles_def nth_append split: if_splits)

lemma readArticles_last: "readArticles (h1 @ [ArticleArray xs]) (length h1) = Some xs"
  by (simp add: readArticles_def)

lemma sortInPlace_last:
  "sortInPlace (h1 @ [ArticleArray xs]) (length h1) = h1 @ [ArticleArray (sortNewestFirst xs)]"
  by (simp add: sortInPlace_def readArticles_last)

text \<open>
  C9. \<open>groupArticlesBySimilarity\<close> leaves its input unchanged: after the call every
  object that existed before it is as it was, in particular the input array holds the
  same documents in the same order; the cluster list it returns is a newly allocated
  array, and it holds what the function computes from the documents.
\<close>

theorem groupArticlesBySimilarity_store_frame:
  assumes "readArticles h r = Some articles"
    and "groupArticlesBySimilarity_store h r threshold = (h', res)"
  shows "take (length h) h' = h \<and> readArticles h' r = Some articles \<and>
         (case res of
            Inl e \<Rightarrow> groupArticlesBySimilarity articles threshold = Inl e
          | Inr g \<Rightarrow> length h \<le> g \<and> g < length h' \<and>
              (\<exists>groups. h' ! g = GroupArray groups \<and>
                 groupArticlesBySimilarity articles threshold = Inr groups))"
proof (cases "articles = []")
  case True
  with assms have "h' = h @ [GroupArray []]" "res = Inr (length h)"
    by (simp_all add: groupArticlesBySimilarity_store_def alloc_def)
  then show ?thesis
    using True assms(1) by (simp add: readArticles_alloc groupArticlesBySimilarity_def)
next
  case False
  let ?S = "sortNewestFirst articles"
  let ?h2 = "h @ [GroupArray [], ArticleArray articles]"
  let ?h3 = "h @ [GroupArray [], ArticleArray ?S]"
  have s3: "sortInPlace (h @ [GroupArray [], ArticleArray articles]) (Suc (length h)) = ?h3"
    using sortInPlace_last[of "h @ [GroupArray []]" articles] by simp
  have r3: "readArticles ?h3 (Suc (length h)) = Some ?S"
    using readArticles_last[of "h @ [GroupArray []]" ?S] by simp
  have run: "groupArticlesBySimilarity_store h r threshold =
      (case groupLoop threshold ?S ?S ([], {}) of
         Inl e \<Rightarrow> (?h3, Inl e)
       | Inr groups \<Rightarrow> (?h3[length h := GroupArray groups], Inr (length h)))"
    using False assms(1)
    by (simp add: groupArticlesBySimilarity_store_def alloc_def s3 r3 Let_def split: sum.split)
  have pure: "groupArticlesBySimilarity articles threshold = groupLoop threshold ?S ?S ([], {})"
    using False by (rule groupArticlesBySimilarity_nonempty)
  have keep: "readArticles (h @ ys) r = Some articles" for ys
    using assms(1) by (rule readArticles_alloc)
  show ?thesis
  proof (cases "groupLoop threshold ?S ?S ([], {})")
    case (Inl e)
    with run assms(2) have "h' = ?h3" "res = Inl e" by simp_all
    then show ?thesis using Inl pure keep by simp
  next
    case (Inr groups)
    with run assms(2) have h': "h' = h @ [GroupArray groups, ArticleArray ?S]" and res: "res = Inr (length h)"
      by (simp_all add: list_update_append)
    show ?thesis using Inr pure keep by (simp add: h' res nth_append)
  qed
qed

theorem groupArticlesBySimilarity_store_frame_witness:
  "readArticles [ArticleArray scenarioBatch] 0 = Some scenarioBatch \<and>
   (\<exists>h' g. groupArticlesBySimilarity_store [ArticleArray scenarioBatch] 0 3 = (h', Inr g) \<and>
      take 1 h' = [ArticleArray scenarioBatch] \<and>
      readArticles h' 0 = Some scenarioBatch \<and> 1 \<le> g \<and> g < length h')"
proof -
  have r: "readArticles [ArticleArray scenarioBatch] 0 = Some scenarioBatch"
    by (simp add: readArticles_def)
  obtain h' res where e: "groupArticlesBySimilarity_store [ArticleArray scenarioBatch] 0 3 = (h', res)"
    by (rule prod.exhaust)
  note f = groupArticlesBySimilarity_store_frame[OF r e]
  from f scenario_groups obtain g where "res = Inr g"
    by (cases res) simp_all
  with f e r show ?thesis by auto
qed

section \<open>Claims about the hash primitive\<close>

lemma and_MASK_64_mod: "x AND MASK_64 = x mod 2 ^ 64"
proof -
  have "MASK_64 = mask 64" by (simp add: MASK_64_def mask_eq_exp_minus_1)
  then have "x AND MASK_64 = take_bit 64 x" by (simp only: take_bit_eq_mask)
  also have "\<dots> = x mod 2 ^ 64" by (simp only: take_bit_eq_mod)
  finally show ?thesis .
qed

lemma fnv1a64_snoc:
  "fnv1a64 (str @ [c]) = ((fnv1a64 str XOR uint c) * FNV_PRIME) mod 2 ^ 64"
  by (simp add: fnv1a64_def and_MASK_64_mod)

lemma fnv1a64_range: "0 \<le> fnv1a64 str \<and> fnv1a64 str < 2 ^ 64"
proof (induction str rule: rev_induct)
  case Nil
  show ?case by (simp add: fnv1a64_def FNV_OFFSET_BASIS_def)
next
  case (snoc c str)
  show ?case unfolding fnv1a64_snoc by simp
qed

lemma codePoints_code_units:
  "list_all (\<lambda>c. \<not> isHighSurrogate c) str \<Longrightarrow> codePoints str = map uint str"
  by (induction str rule: codePoints.induct) simp_all

lemma fnv1a64_code_points:
  assumes "list_all (\<lambda>c. \<not> isHighSurrogate c) str"
  shows "fnv1a64 str = fnv1a64_byCodePoint str"
proof -
  have "foldl (\<lambda>hash cp. ((hash XOR cp) * FNV_PRIME) mod 2 ^ 64) h (map uint s) =
        foldl (\<lambda>hash c. ((hash XOR uint c) * FNV_PRIME) AND MASK_64) h s" for h and s :: jsstring
    by (induction s arbitrary: h) (simp_all add: and_MASK_64_mod)
  then show ?thesis
    by (simp add: fnv1a64_def fnv1a64_byCodePoint_def codePoints_code_units[OF assms])
qed

text \<open>
  C6, as amended. \<open>fnv1a64\<close> computes a 64-bit FNV-1a hash of its input, taken as the
  sequence of its UTF-16 code units: the empty string hashes to the offset constant
  14695981039346656037, and each further code unit (the value \<open>charCodeAt\<close> returns) is
  XORed into the running hash, which is then multiplied by the prime 1099511628211 modulo
  \<open>2^64\<close>. The result always fits in 64 bits, there is no failure mode, and these
  equations determine the value on every string. On a string without a high surrogate,
  where every character is a single code unit, that is the hash taken over the
  characters' code points.
\<close>

theorem fnv1a64_is_fnv1a:
  "fnv1a64 [] = 14695981039346656037 \<and>
   fnv1a64 (str @ [c]) = ((fnv1a64 str XOR uint c) * 1099511628211) mod 2 ^ 64 \<and>
   0 \<le> fnv1a64 str \<and> fnv1a64 str < 2 ^ 64 \<and>
   (list_all (\<lambda>c. \<not> isHighSurrogate c) str \<longrightarrow> fnv1a64 str = fnv1a64_byCodePoint str)"
  using fnv1a64_snoc[of str c] fnv1a64_range[of str] fnv1a64_code_points[of str]
  by (simp add: fnv1a64_def FNV_OFFSET_BASIS_def FNV_PRIME_def)

theorem fnv1a64_is_fnv1a_witness:
  "list_all (\<lambda>c. \<not> isHighSurrogate c) (js ''hell'') \<and>
   fnv1a64 (js ''hell'') = fnv1a64_byCodePoint (js ''hell'') \<and>
   fnv1a64 (js ''hell'' @ [0x6F]) =
     ((fnv1a64 (js ''hell'') XOR uint (0x6F :: jschar)) * 1099511628211) mod 2 ^ 64 \<and>
   fnv1a64 (js ''hell'' @ [0x6F]) = 11831194018420276491"
proof -
  have h: "list_all (\<lambda>c. \<not> isHighSurrogate c) (js ''hell'')" by code_simp
  have v: "fnv1a64 (js ''hell'' @ [0x6F]) = 11831194018420276491" by code_simp
  note t = fnv1a64_is_fnv1a[of "js ''hell''" "0x6F"]
  from t h have a: "fnv1a64 (js ''hell'') = fnv1a64_byCodePoint (js ''hell'')" by blast
  from t have s: "fnv1a64 (js ''hell'' @ [0x6F]) =
     ((fnv1a64 (js ''hell'') XOR uint (0x6F :: jschar)) * 1099511628211) mod 2 ^ 64"
    by blast
  from h a s v show ?thesis by (intro conjI)
qed

text \<open>
  C6 as stated fails: the string that holds the one character U+1F600 consists of the
  code units D83D and DE00. Its only code point is 1F600, and one FNV-1a step on that
  code point gives 12760313255635922399; \<open>fnv1a64\<close> takes two steps, one for each code
  unit, and returns 16565464328977483992.
\<close>

theorem fnv1a64_code_point_counterexample:
  "codePoints [0xD83D, 0xDE00] = [0x1F600] \<and>
   fnv1a64_byCodePoint [0xD83D, 0xDE00] = 12760313255635922399 \<and>
   fnv1a64 [0xD83D, 0xDE00] = 16565464328977483992 \<and>
   fnv1a64 [0xD83D, 0xDE00] \<noteq> fnv1a64_byCodePoint [0xD83D, 0xDE00]"
proof -
  have a: "codePoints [0xD83D, 0xDE00] = [0x1F600]" by code_simp
  have b: "fnv1a64_byCodePoint [0xD83D, 0xDE00] = 12760313255635922399" by code_simp
  have c: "fnv1a64 [0xD83D, 0xDE00] = 16565464328977483992" by code_simp
  from b c have d: "fnv1a64 [0xD83D, 0xDE00] \<noteq> fnv1a64_byCodePoint [0xD83D, 0xDE00]" by simp
  from a b c d show ?thesis by (intro conjI)
qed

section \<open>The loops of the fingerprint generator\<close>

lemma vote_loop_length:
  "length (foldl (\<lambda>v i. v[i := v ! i + f i]) v is) = length v"
  by (induction "is" arbitrary: v) simp_all

lemma vote_loop_nth:
  "k \<le> length v \<Longrightarrow> j < length v \<Longrightarrow>
   foldl (\<lambda>v i. v[i := v ! i + f i]) v [0..<k] ! j = (if j < k then v ! j + f j else v ! j)"
proof (induction k arbitrary: j)
  case 0
  show ?case by simp
next
  case (Suc k)
  let ?w = "foldl (\<lambda>v i. v[i := v ! i + f i]) v [0..<k]"
  have lw: "length ?w = length v" by (rule vote_loop_length)
  from Suc.prems have k: "k < length v" "k \<le> length v" by simp_all
  have wk: "?w ! k = v ! k" using Suc.IH[OF k(2) k(1)] by simp
  have wj: "?w ! j = (if j < k then v ! j + f j else v ! j)"
    by (rule Suc.IH[OF k(2) Suc.prems(2)])
  show ?case
    using wk wj k(1) lw Suc.prems(2)
    by (auto simp: nth_list_update less_Suc_eq)
qed

lemma bit_test_int: "(drop_bit i (h::int) AND 1 = 1) = bit h i"
  by (simp add: and_one_eq bit_iff_odd_drop_bit odd_iff_mod_2_eq_one)

lemma voteToken_length: "length (voteToken v token) = length v"
  by (simp add: voteToken_def Let_def vote_loop_length)

lemma voteToken_nth:
  assumes "length v = 64" "j < 64"
  shows "voteToken v token ! j = v ! j + vote j token"
proof -
  have "voteToken v token =
        foldl (\<lambda>v i. v[i := v ! i + vote i token]) v [0..<64]"
    by (simp add: voteToken_def Let_def bit_test_int vote_def)
  then show ?thesis
    using vote_loop_nth[of 64 v j "\<lambda>i. vote i token"] assms by simp
qed

lemma vote_tokens:
  "length v = 64 \<Longrightarrow> j < 64 \<Longrightarrow>
   length (foldl voteToken v tokens) = 64 \<and>
   foldl voteToken v tokens ! j = v ! j + voteSum j tokens"
proof (induction tokens arbitrary: v)
  case Nil
  then show ?case by (simp add: voteSum_def)
next
  case (Cons t tokens)
  have l: "length (voteToken v t) = 64" using Cons.prems(1) by (simp add: voteToken_length)
  from Cons.IH[OF l Cons.prems(2)] voteToken_nth[OF Cons.prems, of t]
  show ?case by (simp add: voteSum_def)
qed

lemma collapse_loop_bit:
  "bit (foldl (\<lambda>fingerprint i. if P i then fingerprint OR push_bit i 1 else fingerprint)
          (a::int) [0..<k]) j \<longleftrightarrow> bit a j \<or> (j < k \<and> P j)"
proof (induction k)
  case 0
  show ?case by simp
next
  case (Suc k)
  then show ?case
    by (auto simp: bit_or_iff bit_exp_iff less_Suc_eq)
qed

lemma collapse_bit: "bit (collapse v) j \<longleftrightarrow> j < 64 \<and> 0 < v ! j"
  unfolding collapse_def using collapse_loop_bit[of "\<lambda>i. 0 < v ! i" 0 64 j] by simp

lemma collapse_range: "0 \<le> collapse v \<and> collapse v < 2 ^ 64"
proof -
  have "take_bit 64 (collapse v) = collapse v"
    by (rule bit_eqI) (auto simp: bit_take_bit_iff collapse_bit)
  moreover have "0 \<le> take_bit 64 (collapse v)" by simp
  moreover have "take_bit 64 (collapse v) < 2 ^ 64" by (rule take_bit_int_less_exp)
  ultimately show ?thesis by simp
qed

lemma hexDigitChar_props:
  assumes "0 \<le> d" "d < 16"
  shows "isLowerHexDigit (hexDigitChar d) \<and> hexDigitValue (hexDigitChar d) = d"
proof -
  from assms have "d = 0 \<or> d = 1 \<or> d = 2 \<or> d = 3 \<or> d = 4 \<or> d = 5 \<or> d = 6 \<or> d = 7 \<or>
      d = 8 \<or> d = 9 \<or> d = 10 \<or> d = 11 \<or> d = 12 \<or> d = 13 \<or> d = 14 \<or> d = 15"
    by arith
  then show ?thesis
    by (elim disjE) (simp_all add: hexDigitChar_def isLowerHexDigit_def hexDigitValue_def)
qed

lemma toString16_nonneg:
  "0 \<le> n \<Longrightarrow> toString16 n =
     (if n < 16 then [hexDigitChar n] else toString16 (n div 16) @ [hexDigitChar (n mod 16)])"
  by (subst toString16.simps) simp

lemma toString16_props:
  "0 \<le> n \<Longrightarrow>
   list_all isLowerHexDigit (toString16 n) \<and> hexValue (toString16 n) = n \<and>
   (\<forall>k. 0 < k \<longrightarrow> n < 16 ^ k \<longrightarrow> length (toString16 n) \<le> k)"
proof (induction "nat n" arbitrary: n rule: less_induct)
  case less
  show ?case
  proof (cases "n < 16")
    case True
    have one: "\<And>k::nat. 0 < k \<Longrightarrow> Suc 0 \<le> k" by simp
    from True less.prems hexDigitChar_props[of n] show ?thesis
      by (simp add: toString16_nonneg hexValue_def one)
  next
    case False
    let ?q = "n div 16" and ?r = "n mod 16"
    have q: "0 \<le> ?q" "nat ?q < nat n" using False less.prems by auto
    have r: "0 \<le> ?r" "?r < 16" by simp_all
    note ih = less.hyps[OF q(2) q(1)]
    note dr = hexDigitChar_props[OF r]
    have ts: "toString16 n = toString16 ?q @ [hexDigitChar ?r]"
      using False less.prems by (simp add: toString16_nonneg)
    have v: "hexValue (toString16 n) = n"
      using ih dr by (simp add: ts hexValue_append hexValue_def)
    have l: "length (toString16 n) \<le> k" if "0 < k" "n < 16 ^ k" for k
    proof (cases k)
      case 0
      with that show ?thesis by simp
    next
      case (Suc k')
      with that(2) False have "0 < k'" by (cases k') auto
      moreover from that(2) Suc have "?q < 16 ^ k'" by simp
      ultimately have "length (toString16 ?q) \<le> k'" using ih by blast
      then show ?thesis by (simp add: ts Suc)
    qed
    show ?thesis using ih dr v l by (simp add: ts)
  qed
qed

lemma hexValue_zeros: "hexValue (replicate m 0x30 @ s) = hexValue s"
proof (induction m)
  case 0
  show ?case by simp
next
  case (Suc m)
  have "hexValue (replicate (Suc m) 0x30 @ s) =
        foldl (\<lambda>acc c. 16 * acc + hexDigitValue c) 0 (replicate m 0x30 @ s)"
    by (simp add: hexValue_def hexDigitValue_def)
  with Suc show ?case by (simp add: hexValue_def)
qed

lemma padStart_hex:
  assumes "0 \<le> n" "n < 2 ^ 64"
  shows "length (padStart (toString16 n) 16 0x30) = 16"
    and "list_all isLowerHexDigit (padStart (toString16 n) 16 0x30)"
    and "hexValue (padStart (toString16 n) 16 0x30) = n"
proof -
  note p = toString16_props[OF assms(1)]
  have "n < 16 ^ 16" using assms(2) by simp
  with p have len: "length (toString16 n) \<le> 16" by (metis zero_less_numeral)
  have z: "isLowerHexDigit 0x30" by (simp add: isLowerHexDigit_def)
  show "length (padStart (toString16 n) 16 0x30) = 16"
    using len by (simp add: padStart_def)
  show "list_all isLowerHexDigit (padStart (toString16 n) 16 0x30)"
    using p z by (simp add: padStart_def list_all_iff)
  show "hexValue (padStart (toString16 n) 16 0x30) = n"
    using p by (simp add: padStart_def hexValue_zeros)
qed

lemma replaceNonWord_whitespace:
  "list_all isWhiteSpace s \<Longrightarrow> replaceNonWord s = s"
  by (induction s) (simp_all add: replaceNonWord_def)

lemma splitWhiteSpace_whitespace:
  assumes "list_all isWhiteSpace s"
  shows "filter (\<lambda>word. 2 \<le> length word) (splitWhiteSpace s []) = []"
proof (cases s)
  case Nil
  then show ?thesis by simp
next
  case (Cons c cs)
  with assms have c: "isWhiteSpace c" and dw: "dropWhile isWhiteSpace cs = []"
    by (simp_all add: list_all_iff)
  have "splitWhiteSpace s [] = [] # splitWhiteSpace (dropWhile isWhiteSpace cs) []"
    using Cons c by simp
  also have "\<dots> = [[], []]" by (simp only: dw splitWhiteSpace.simps)
  finally show ?thesis by simp
qed

lemma tokenize_whitespace:
  "list_all isWhiteSpace text \<Longrightarrow> lc text = text \<Longrightarrow> tokenize lc text 2 = []"
  by (simp add: tokenize_def replaceNonWord_whitespace splitWhiteSpace_whitespace)

lemma splitWhiteSpace_chars:
  "\<forall>c \<in> set piece. \<not> isWhiteSpace c \<Longrightarrow>
   \<forall>w \<in> set (splitWhiteSpace s piece). \<forall>c \<in> set w. c \<in> set piece \<union> set s \<and> \<not> isWhiteSpace c"
proof (induction s piece rule: splitWhiteSpace.induct)
  case (1 piece)
  then show ?case by simp
next
  case (2 c cs piece)
  show ?case
  proof (cases "isWhiteSpace c")
    case True
    have "\<forall>w \<in> set (splitWhiteSpace (dropWhile isWhiteSpace cs) []).
            \<forall>c \<in> set w. c \<in> set [] \<union> set (dropWhile isWhiteSpace cs) \<and> \<not> isWhiteSpace c"
      by (rule "2.IH"(1)[OF True]) simp
    then have "\<forall>w \<in> set (splitWhiteSpace (dropWhile isWhiteSpace cs) []).
            \<forall>c \<in> set w. c \<in> set cs \<and> \<not> isWhiteSpace c"
      by (auto dest: set_dropWhileD)
    with True "2.prems" show ?thesis by auto
  next
    case False
    have "\<forall>w \<in> set (splitWhiteSpace cs (piece @ [c])).
            \<forall>c' \<in> set w. c' \<in> set (piece @ [c]) \<union> set cs \<and> \<not> isWhiteSpace c'"
      by (rule "2.IH"(2)[OF False]) (use False "2.prems" in auto)
    with False show ?thesis by auto
  qed
qed

lemma replaceNonWord_chars:
  "c \<in> set (replaceNonWord s) \<Longrightarrow> isWordChar c \<or> isWhiteSpace c"
  by (auto simp: replaceNonWord_def isWhiteSpace_def)

lemma tokenize_tokens:
  "list_all (\<lambda>token. 2 \<le> length token \<and> list_all isWordChar token) (tokenize lc text 2)"
proof -
  have "\<forall>w \<in> set (splitWhiteSpace (replaceNonWord (lc text)) []).
          \<forall>c \<in> set w. c \<in> set [] \<union> set (replaceNonWord (lc text)) \<and> \<not> isWhiteSpace c"
    by (rule splitWhiteSpace_chars) simp
  then show ?thesis
    using replaceNonWord_chars[of _ "lc text"]
    by (auto simp: tokenize_def list_all_iff)
qed

section \<open>Claims about the fingerprint generator\<close>

lemma computeSimHash_tokens:
  assumes "tokenize lc text 2 \<noteq> []"
  shows "computeSimHash lc text =
           padStart (toString16 (collapse (foldl voteToken (replicate 64 0) (tokenize lc text 2)))) 16 0x30"
  using assms by (simp add: computeSimHash_def Let_def)

text \<open>
  C2. \<open>computeSimHash\<close> follows the specified algorithm on every text, whatever the
  host's case mapping \<open>lc\<close> is. If tokenization yields no token it returns the
  sentinel \<open>0000000000000000\<close>; that is the case in particular for the empty text and
  for a text of white space only (which the case mapping leaves as it is). Otherwise the
  result is 16 lowercase hexadecimal characters (so zero-padded) that denote a 64-bit
  value whose bit \<open>i\<close> is 1 exactly when the sum over the tokens of +1 (bit \<open>i\<close> of
  the token's hash is 1) or -1 (it is 0) is strictly positive; a sum of 0 gives bit 0.
  Every token is a word of at least two characters of \<open>[A-Za-z0-9_]\<close>.
\<close>

theorem computeSimHash_algorithm:
  "(tokenize lc text 2 = [] \<longrightarrow> computeSimHash lc text = js ''0000000000000000'') \<and>
   (list_all isWhiteSpace text \<and> lc text = text \<longrightarrow>
      computeSimHash lc text = js ''0000000000000000'') \<and>
   (tokenize lc text 2 \<noteq> [] \<longrightarrow>
      length (computeSimHash lc text) = 16 \<and>
      list_all isLowerHexDigit (computeSimHash lc text) \<and>
      0 \<le> hexValue (computeSimHash lc text) \<and> hexValue (computeSimHash lc text) < 2 ^ 64 \<and>
      (\<forall>i<64. bit (hexValue (computeSimHash lc text)) i \<longleftrightarrow>
                0 < voteSum i (tokenize lc text 2))) \<and>
   list_all (\<lambda>token. 2 \<le> length token \<and> list_all isWordChar token) (tokenize lc text 2)"
proof (intro conjI impI)
  assume "tokenize lc text 2 = []"
  then show "computeSimHash lc text = js ''0000000000000000''"
    by (simp add: computeSimHash_def)
next
  assume "list_all isWhiteSpace text \<and> lc text = text"
  then have "tokenize lc text 2 = []" by (simp add: tokenize_whitespace)
  then show "computeSimHash lc text = js ''0000000000000000''"
    by (simp add: computeSimHash_def)
next
  show "list_all (\<lambda>token. 2 \<le> length token \<and> list_all isWordChar token) (tokenize lc text 2)"
    by (rule tokenize_tokens)
next
  assume ne: "tokenize lc text 2 \<noteq> []"
  let ?tokens = "tokenize lc text 2"
  let ?vector = "foldl voteToken (replicate 64 0) ?tokens"
  let ?fp = "collapse ?vector"
  note cs = computeSimHash_tokens[OF ne]
  note r = collapse_range[of ?vector]
  from r have r1: "0 \<le> ?fp" and r2: "?fp < 2 ^ 64" by simp_all
  note p = padStart_hex[OF r1 r2]
  show "length (computeSimHash lc text) = 16" using p(1) by (simp only: cs)
  show "list_all isLowerHexDigit (computeSimHash lc text)" using p(2) by (simp only: cs)
  have hv: "hexValue (computeSimHash lc text) = ?fp" using p(3) by (simp only: cs)
  show "0 \<le> hexValue (computeSimHash lc text)" using r1 by (simp only: hv)
  show "hexValue (computeSimHash lc text) < 2 ^ 64" using r2 by (simp only: hv)
  show "\<forall>i<64. bit (hexValue (computeSimHash lc text)) i \<longleftrightarrow> 0 < voteSum i ?tokens"
  proof (intro allI impI)
    fix i :: nat assume i: "i < 64"
    have "?vector ! i = replicate 64 0 ! i + voteSum i ?tokens"
      using vote_tokens[of "replicate 64 0" i ?tokens] i by simp
    then have "?vector ! i = voteSum i ?tokens" using i by simp
    then show "bit (hexValue (computeSimHash lc text)) i \<longleftrightarrow> 0 < voteSum i ?tokens"
      using i by (simp only: hv collapse_bit) simp
  qed
qed

lemma example_texts:
  "list_all isWhiteSpace (js ''   '')"
  "asciiLowerCase (js ''   '') = js ''   ''"
  "tokenize asciiLowerCase (js ''Breaking news: a Major earthquake'') 2 \<noteq> []"
  by code_simp+

lemma example_fingerprint:
  "computeSimHash asciiLowerCase (js ''Breaking news: a Major earthquake'') =
     js ''950803b108323400''"
  by code_simp

lemma example_tie:
  "voteSum 1 (tokenize asciiLowerCase (js ''Breaking news: a Major earthquake'') 2) = 0"
  by code_simp

theorem computeSimHash_algorithm_witness:
  "list_all isWhiteSpace (js ''   '') \<and> asciiLowerCase (js ''   '') = js ''   '' \<and>
   computeSimHash asciiLowerCase (js ''   '') = js ''0000000000000000'' \<and>
   tokenize asciiLowerCase (js ''Breaking news: a Major earthquake'') 2 \<noteq> [] \<and>
   length (computeSimHash asciiLowerCase (js ''Breaking news: a Major earthquake'')) = 16 \<and>
   (bit (hexValue (computeSimHash asciiLowerCase
            (js ''Breaking news: a Major earthquake''))) 10 \<longleftrightarrow>
      0 < voteSum 10 (tokenize asciiLowerCase (js ''Breaking news: a Major earthquake'') 2)) \<and>
   (bit (hexValue (computeSimHash asciiLowerCase
            (js ''Breaking news: a Major earthquake''))) 1 \<longleftrightarrow>
      0 < voteSum 1 (tokenize asciiLowerCase (js ''Breaking news: a Major earthquake'') 2)) \<and>
   computeSimHash asciiLowerCase (js ''Breaking news: a Major earthquake'') =
     js ''950803b108323400'' \<and>
   voteSum 1 (tokenize asciiLowerCase (js ''Breaking news: a Major earthquake'') 2) = 0"
proof -
  let ?T = "js ''Breaking news: a Major earthquake''"
  note blank = computeSimHash_algorithm[of asciiLowerCase "js ''   ''"]
  note words = computeSimHash_algorithm[of asciiLowerCase ?T]
  from blank example_texts(1,2)
  have s: "computeSimHash asciiLowerCase (js ''   '') = js ''0000000000000000''"
    by blast
  from words example_texts(3)
  have l: "length (computeSimHash asciiLowerCase ?T) = 16"
    and q: "\<forall>i<64. bit (hexValue (computeSimHash asciiLowerCase ?T)) i \<longleftrightarrow>
                     0 < voteSum i (tokenize asciiLowerCase ?T 2)"
    by blast+
  have q10: "bit (hexValue (computeSimHash asciiLowerCase ?T)) 10 \<longleftrightarrow>
      0 < voteSum 10 (tokenize asciiLowerCase ?T 2)"
    by (rule q[rule_format]) simp
  have q1: "bit (hexValue (computeSimHash asciiLowerCase ?T)) 1 \<longleftrightarrow>
      0 < voteSum 1 (tokenize asciiLowerCase ?T 2)"
    by (rule q[rule_format]) simp
  from example_texts s l q10 q1 example_fingerprint example_tie
  show ?thesis by (intro conjI)
qed

end
